theory Spec2Isabelle
  imports Main "HOL-Library.Word"
begin

unbundle bit_operations_syntax

section \<open>egaify: quantising RGBA images to the EGA palette and packing bit planes\<close>

text \<open>
  The embedding follows \<^verbatim>\<open>egaify.cpp\<close>. Machine types: \<^verbatim>\<open>uint8_t\<close> is an 8-bit word,
  \<^verbatim>\<open>uint32_t\<close> and \<^verbatim>\<open>unsigned\<close> are 32-bit words (so \<^verbatim>\<open>width * height\<close> and
  \<^verbatim>\<open>4 * (y * width + x)\<close> wrap modulo \<open>2 ^ 32\<close> as in the program), \<^verbatim>\<open>int\<close> values are
  HOL integers where the program's values provably stay inside 32 bits, and \<^verbatim>\<open>size_t\<close>
  quantities are natural numbers (they stay below \<open>2 ^ 31\<close>, see \<open>plane_bytes_fit\<close>).
  A \<^verbatim>\<open>std::vector\<close> or a \<^verbatim>\<open>malloc\<close>ed buffer is a list; an access outside the buffer,
  which is undefined behaviour in the program, is the error value \<open>OutOfBounds\<close>.
\<close>

type_synonym u8 = "8 word"
type_synonym u32 = "32 word"

subsection \<open>Palette and quantiser\<close>

definition ega_palette :: "u8 list list" where
  "ega_palette =
    [[0x00, 0x00, 0x00],
     [0x00, 0x00, 0xAA],
     [0x00, 0xAA, 0x00],
     [0x00, 0xAA, 0xAA],
     [0xAA, 0x00, 0x00],
     [0xAA, 0x00, 0xAA],
     [0xAA, 0x55, 0x00],
     [0xAA, 0xAA, 0xAA],
     [0x55, 0x55, 0x55],
     [0x55, 0x55, 0xFF],
     [0x55, 0xFF, 0x55],
     [0x55, 0xFF, 0xFF],
     [0xFF, 0x55, 0x55],
     [0xFF, 0x55, 0xFF],
     [0xFF, 0xFF, 0x55],
     [0xFF, 0xFF, 0xFF]]"

text \<open>
  \<^verbatim>\<open>colour_distance\<close>: the three differences and the sum of squares are computed in
  \<^verbatim>\<open>int\<close> and the sum is cast to \<^verbatim>\<open>uint32_t\<close>. Both arguments are arrays of three bytes.
\<close>

definition colour_distance :: "u8 list \<Rightarrow> u8 list \<Rightarrow> u32" where
  "colour_distance a b =
    (let dr = uint (a ! 0) - uint (b ! 0);
         dg = uint (a ! 1) - uint (b ! 1);
         db = uint (a ! 2) - uint (b ! 2)
     in word_of_int (dr * dr + dg * dg + db * db))"

text \<open>
  The loop of \<^verbatim>\<open>map_to_ega\<close>: \<open>i\<close> is the \<^verbatim>\<open>uint8_t\<close> counter, \<open>idx\<close> and \<open>best_dist\<close> the
  running best. The comparison is the strict \<^verbatim>\<open><\<close> on \<^verbatim>\<open>uint32_t\<close>.
\<close>

function map_to_ega_loop :: "u8 list \<Rightarrow> u8 \<Rightarrow> u8 \<Rightarrow> u32 \<Rightarrow> u8" where
  "map_to_ega_loop rgb i idx best_dist =
    (if i < 16 then
       (let dist = colour_distance rgb (ega_palette ! unat i) in
        if dist < best_dist then map_to_ega_loop rgb (i + 1) i dist
        else map_to_ega_loop rgb (i + 1) idx best_dist)
     else idx)"
  by pat_completeness auto

lemma word_succ_below: "(x :: 'a::len word) < w \<Longrightarrow> unat (x + 1) = Suc (unat x)"
proof -
  assume "x < w"
  then have "unat x < unat w" by (simp add: word_less_nat_alt)
  moreover have "unat w < 2 ^ LENGTH('a)" by (rule unsigned_less)
  ultimately have "unat x + 1 < 2 ^ LENGTH('a)" by linarith
  then show ?thesis by (simp add: unat_word_ariths)
qed

lemma u8_counter_decreases: "(i :: u8) < 16 \<Longrightarrow> 16 - unat (i + 1) < 16 - unat i"
  using word_succ_below [of i 16] by (simp add: word_less_nat_alt)

termination map_to_ega_loop
  by (relation "measure (\<lambda>(rgb, i, idx, best_dist). 16 - unat i)")
     (auto simp: u8_counter_decreases)

declare map_to_ega_loop.simps [simp del]

definition map_to_ega :: "u8 \<Rightarrow> u8 \<Rightarrow> u8 \<Rightarrow> u8" where
  "map_to_ega r g b = map_to_ega_loop [r, g, b] 0 0 0xffffffff"

subsection \<open>Planar packer\<close>

datatype error = AllocFailure | OutOfBounds

text \<open>
  The innermost loop of \<^verbatim>\<open>convert_to_planar\<close> over \<^verbatim>\<open>plane\<close>. The buffer \<open>out\<close> is only
  touched when bit \<open>plane\<close> of \<open>pixel_index\<close> is set; the position
  \<^verbatim>\<open>plane * plane_size + byte_offset\<close> is computed in \<^verbatim>\<open>size_t\<close>. The update
  \<^verbatim>\<open>out[k] |= (1 << bit)\<close> stores the low byte of the disjunction.
\<close>

function planar_plane_loop ::
  "u8 list \<Rightarrow> nat \<Rightarrow> u32 \<Rightarrow> u32 \<Rightarrow> u32 \<Rightarrow> u32 \<Rightarrow> error + u8 list" where
  "planar_plane_loop out plane_size pixel_index bitn byte_offset plane =
    (if plane < 4 then
       (if drop_bit (unat plane) pixel_index AND 1 \<noteq> 0 then
          (let k = unat plane * plane_size + unat byte_offset in
           if k < length out then
             planar_plane_loop (out[k := out ! k OR push_bit (unat bitn) 1])
               plane_size pixel_index bitn byte_offset (plane + 1)
           else Inl OutOfBounds)
        else planar_plane_loop out plane_size pixel_index bitn byte_offset (plane + 1))
     else Inr out)"
  by pat_completeness auto

lemma u32_counter_decreases:
  "(x :: u32) < w \<Longrightarrow> unat w - unat (x + 1) < unat w - unat x"
  using word_succ_below [of x w] by (simp add: word_less_nat_alt)

termination planar_plane_loop
  by (relation "measure (\<lambda>(out, plane_size, pixel_index, bitn, byte_offset, plane). 4 - unat plane)")
     (auto dest: u32_counter_decreases)

declare planar_plane_loop.simps [simp del]

text \<open>The loop over \<^verbatim>\<open>x\<close> within one row, and the loop over the rows.\<close>

function planar_x_loop ::
  "u8 list \<Rightarrow> u32 \<Rightarrow> nat \<Rightarrow> u32 \<Rightarrow> u32 \<Rightarrow> u8 list \<Rightarrow> error + u8 list" where
  "planar_x_loop indices width plane_size y x out =
    (if x < width then
       (let n = y * width + x in
        if unat n < length indices then
          (let pixel_index = ucast (indices ! unat n) AND 0x0F;
               bitn = 7 - (x AND 7);
               byte_offset = n div 8
           in case planar_plane_loop out plane_size pixel_index bitn byte_offset 0 of
                Inl e \<Rightarrow> Inl e
              | Inr out' \<Rightarrow> planar_x_loop indices width plane_size y (x + 1) out')
        else Inl OutOfBounds)
     else Inr out)"
  by pat_completeness auto

termination planar_x_loop
  by (relation "measure (\<lambda>(indices, width, plane_size, y, x, out). unat width - unat x)")
     (auto simp: u32_counter_decreases)

declare planar_x_loop.simps [simp del]

function planar_y_loop ::
  "u8 list \<Rightarrow> u32 \<Rightarrow> u32 \<Rightarrow> nat \<Rightarrow> u32 \<Rightarrow> u8 list \<Rightarrow> error + u8 list" where
  "planar_y_loop indices width height plane_size y out =
    (if y < height then
       (case planar_x_loop indices width plane_size y 0 out of
          Inl e \<Rightarrow> Inl e
        | Inr out' \<Rightarrow> planar_y_loop indices width height plane_size (y + 1) out')
     else Inr out)"
  by pat_completeness auto

termination planar_y_loop
  by (relation "measure (\<lambda>(indices, width, height, plane_size, y, out). unat height - unat y)")
     (auto simp: u32_counter_decreases)

declare planar_y_loop.simps [simp del]

text \<open>
  \<^verbatim>\<open>convert_to_planar\<close>. Whether \<^verbatim>\<open>malloc\<close> returns a buffer for a request of a given size
  is the parameter \<open>malloc_ok\<close>; on failure the program prints a message and calls
  \<^verbatim>\<open>exit(1)\<close>, here the error \<open>AllocFailure\<close>. The buffer is zeroed by \<^verbatim>\<open>memset\<close>.
\<close>

definition convert_to_planar ::
  "(nat \<Rightarrow> bool) \<Rightarrow> u8 list \<Rightarrow> u32 \<Rightarrow> u32 \<Rightarrow> error + u8 list" where
  "convert_to_planar malloc_ok indices width height =
    (let plane_size = unat ((width * height) div 8) in
     if \<not> malloc_ok (plane_size * 4) then Inl AllocFailure
     else planar_y_loop indices width height plane_size 0 (replicate (plane_size * 4) 0))"

subsection \<open>The quantise loop of \<^verbatim>\<open>main\<close>\<close>

text \<open>
  The two loops that fill \<^verbatim>\<open>indices\<close>. The position \<^verbatim>\<open>idx = 4 * (y * width + x)\<close> is an
  \<^verbatim>\<open>unsigned\<close>; the bytes \<^verbatim>\<open>image[idx + 0]\<close>, \<^verbatim>\<open>image[idx + 1]\<close> and \<^verbatim>\<open>image[idx + 2]\<close> are
  read and the byte at \<^verbatim>\<open>idx + 3\<close> (alpha) is not. The result is stored at
  \<^verbatim>\<open>indices[y * width + x]\<close>. The vector \<^verbatim>\<open>image\<close> is called \<open>img\<close> here.
\<close>

function quantize_x_loop ::
  "u8 list \<Rightarrow> u32 \<Rightarrow> u32 \<Rightarrow> u32 \<Rightarrow> u8 list \<Rightarrow> error + u8 list" where
  "quantize_x_loop img width y x indices =
    (if x < width then
       (let idx = 4 * (y * width + x) in
        if unat (idx + 0) < length img \<and> unat (idx + 1) < length img \<and>
           unat (idx + 2) < length img \<and> unat (y * width + x) < length indices then
          (let r = img ! unat (idx + 0);
               g = img ! unat (idx + 1);
               b = img ! unat (idx + 2)
           in quantize_x_loop img width y (x + 1)
                (indices[unat (y * width + x) := map_to_ega r g b]))
        else Inl OutOfBounds)
     else Inr indices)"
  by pat_completeness auto

termination quantize_x_loop
  by (relation "measure (\<lambda>(img, width, y, x, indices). unat width - unat x)")
     (auto simp: u32_counter_decreases)

declare quantize_x_loop.simps [simp del]

function quantize_y_loop ::
  "u8 list \<Rightarrow> u32 \<Rightarrow> u32 \<Rightarrow> u32 \<Rightarrow> u8 list \<Rightarrow> error + u8 list" where
  "quantize_y_loop img width height y indices =
    (if y < height then
       (case quantize_x_loop img width y 0 indices of
          Inl e \<Rightarrow> Inl e
        | Inr indices' \<Rightarrow> quantize_y_loop img width height (y + 1) indices')
     else Inr indices)"
  by pat_completeness auto

termination quantize_y_loop
  by (relation "measure (\<lambda>(img, width, height, y, indices). unat height - unat y)")
     (auto simp: u32_counter_decreases)

declare quantize_y_loop.simps [simp del]

text \<open>
  The value that the loop body stores for the pixel at linear position \<open>p\<close>
  (\<^verbatim>\<open>y * width + x\<close>, an \<^verbatim>\<open>unsigned\<close>): the three bytes are read at
  \<^verbatim>\<open>idx = 4 * p\<close>, which wraps modulo \<open>2 ^ 32\<close>.
\<close>

definition stored_index :: "u8 list \<Rightarrow> u32 \<Rightarrow> u8" where
  "stored_index img p =
     map_to_ega (img ! unat (4 * p + 0)) (img ! unat (4 * p + 1)) (img ! unat (4 * p + 2))"

subsection \<open>The program\<close>

text \<open>
  What \<^verbatim>\<open>main\<close> prints: one constructor per \<^verbatim>\<open>fprintf\<close>/\<^verbatim>\<open>printf\<close> call, carrying the
  values that are formatted into the text.
\<close>

datatype message =
    Usage "string option"
  | LoadError string u32
  | DecodeError string u32
  | WidthError
  | AllocError
  | OpenError string
  | Wrote nat string u32 u32

text \<open>
  How the process ends: \<^verbatim>\<open>return\<close> from \<^verbatim>\<open>main\<close> or \<^verbatim>\<open>exit\<close> with a code, or termination by
  the exception that \<^verbatim>\<open>std::vector\<close> throws when it cannot allocate and nobody catches.
\<close>

datatype status = Exit int | Abort

text \<open>
  The surroundings of one run. The PNG library and the C library are outside the
  program: \<open>load_file\<close> and \<open>decode\<close> stand for \<^verbatim>\<open>lodepng::load_file\<close> and
  \<^verbatim>\<open>lodepng::decode\<close> (error code first, 0 for success; decoded image, which has four
  bytes R, G, B, A per pixel, then width and height),
  \<open>vector_ok\<close> and \<open>malloc_ok\<close> say whether an allocation of the given size succeeds,
  \<open>fopen_ok\<close> whether the output file can be opened for writing, \<open>fwrite_count\<close> how
  many of the requested bytes reach the file, and \<open>files\<close> is the file system before
  the run.
\<close>

record env =
  argv :: "string list"
  load_file :: "string \<Rightarrow> u32 \<times> u8 list"
  decode :: "u8 list \<Rightarrow> u32 \<times> u8 list \<times> u32 \<times> u32"
  vector_ok :: "nat \<Rightarrow> bool"
  malloc_ok :: "nat \<Rightarrow> bool"
  fopen_ok :: "string \<Rightarrow> bool"
  fwrite_count :: "nat \<Rightarrow> nat"
  files :: "string \<rightharpoonup> u8 list"

record outcome =
  status :: status
  stderr :: "message list"
  stdout :: "message list"
  fs :: "string \<rightharpoonup> u8 list"

definition failed :: "env \<Rightarrow> message \<Rightarrow> outcome" where
  "failed e m = \<lparr>status = Exit 1, stderr = [m], stdout = [], fs = files e\<rparr>"

text \<open>
  \<^verbatim>\<open>main\<close>. \<^verbatim>\<open>argc\<close> is the length of \<open>argv\<close>. The result \<open>Inl OutOfBounds\<close> stands for a
  run that leaves a buffer (undefined behaviour); every other run ends with an outcome.
  \<^verbatim>\<open>fopen\<close> with mode \<^verbatim>\<open>"wb"\<close> creates or empties the file, and the return value of
  \<^verbatim>\<open>fwrite\<close> is not looked at.
\<close>

definition main :: "env \<Rightarrow> error + outcome" where
  "main e =
    (if length (argv e) < 3 then
       Inr (failed e (Usage (case argv e of [] \<Rightarrow> None | a # _ \<Rightarrow> Some a)))
     else
       (let input_path = argv e ! 1;
            output_path = argv e ! 2;
            (error, png) = load_file e input_path
        in if error \<noteq> 0 then Inr (failed e (LoadError input_path error))
           else
             (let (error, img, width, height) = decode e png
              in if error \<noteq> 0 then Inr (failed e (DecodeError input_path error))
                 else if width mod 8 \<noteq> 0 then Inr (failed e WidthError)
                 else if \<not> vector_ok e (unat (width * height)) then
                   Inr \<lparr>status = Abort, stderr = [], stdout = [], fs = files e\<rparr>
                 else
                   (case quantize_y_loop img width height 0
                           (replicate (unat (width * height)) 0) of
                      Inl err \<Rightarrow> Inl err
                    | Inr indices \<Rightarrow>
                        (case convert_to_planar (malloc_ok e) indices width height of
                           Inl AllocFailure \<Rightarrow> Inr (failed e AllocError)
                         | Inl OutOfBounds \<Rightarrow> Inl OutOfBounds
                         | Inr planar \<Rightarrow>
                             (let plane_size = unat ((width * height) div 8);
                                  total_size = plane_size * 4
                              in if \<not> fopen_ok e output_path then
                                   Inr (failed e (OpenError output_path))
                                 else
                                   Inr \<lparr>status = Exit 0, stderr = [],
                                        stdout = [Wrote total_size output_path width height],
                                        fs = (files e)(output_path \<mapsto>
                                               take (fwrite_count e total_size) planar)\<rparr>))))))"

subsection \<open>The layout and the distance in the words of the specification\<close>

text \<open>The squared Euclidean distance between a pixel and palette entry \<open>i\<close>.\<close>

definition euclid_sq :: "u8 \<Rightarrow> u8 \<Rightarrow> u8 \<Rightarrow> nat \<Rightarrow> int" where
  "euclid_sq r g b i =
     (uint r - uint (ega_palette ! i ! 0))\<^sup>2 +
     (uint g - uint (ega_palette ! i ! 1))\<^sup>2 +
     (uint b - uint (ega_palette ! i ! 2))\<^sup>2"

text \<open>
  The index buffer of an image of \<open>n\<close> pixels stored as four bytes R, G, B, A per pixel:
  the quantiser applied to every pixel, in row-major order.
\<close>

definition quantized_image :: "u8 list \<Rightarrow> nat \<Rightarrow> u8 list" where
  "quantized_image img n =
     map (\<lambda>k. map_to_ega (img ! (4 * k)) (img ! (4 * k + 1)) (img ! (4 * k + 2))) [0..<n]"

text \<open>
  Byte \<open>k\<close> of plane \<open>p\<close> holds bit \<open>p\<close> of the eight pixels \<open>8 * k, \<dots>, 8 * k + 7\<close>,
  the leftmost pixel in the most significant bit (\<open>horner_sum\<close> takes the least
  significant bit first, hence the \<open>rev\<close>); the output is plane 0, then plane 1,
  plane 2 and plane 3.
\<close>

definition plane_byte :: "u8 list \<Rightarrow> nat \<Rightarrow> nat \<Rightarrow> u8" where
  "plane_byte indices p k =
     horner_sum of_bool 2 (rev (map (\<lambda>j. bit (indices ! (8 * k + j)) p) [0..<8]))"

definition plane_bytes :: "u8 list \<Rightarrow> nat \<Rightarrow> nat \<Rightarrow> u8 list" where
  "plane_bytes indices plane_size p = map (plane_byte indices p) [0..<plane_size]"

definition planar_layout :: "u8 list \<Rightarrow> nat \<Rightarrow> u8 list" where
  "planar_layout indices plane_size =
     plane_bytes indices plane_size 0 @ plane_bytes indices plane_size 1 @
     plane_bytes indices plane_size 2 @ plane_bytes indices plane_size 3"

text \<open>
  Unpacking: bit \<open>p\<close> of the index of pixel \<open>(x, y)\<close> is bit \<open>7 - x mod 8\<close> of byte
  \<open>(y * width + x) div 8\<close> of plane \<open>p\<close>; the pixels are listed row by row.
\<close>

definition unpack_index :: "u8 list \<Rightarrow> nat \<Rightarrow> nat \<Rightarrow> nat \<Rightarrow> nat \<Rightarrow> u8" where
  "unpack_index planes plane_size width y x =
     horner_sum of_bool 2
       (map (\<lambda>p. bit (planes ! (p * plane_size + (y * width + x) div 8)) (7 - x mod 8))
          [0..<4])"

definition unpack :: "u8 list \<Rightarrow> nat \<Rightarrow> nat \<Rightarrow> u8 list" where
  "unpack planes width height =
     map (\<lambda>n. unpack_index planes (width * height div 8) width (n div width) (n mod width))
       [0..<width * height]"

subsection \<open>Sample runs\<close>

text \<open>
  An 8-by-1 RGBA image of alternating opaque black and white pixels, and the
  surroundings of a run \<^verbatim>\<open>egaify in.png out.raw\<close> in which the file is read and decoded
  to the given image, every allocation succeeds, the output file can be opened and
  \<open>written\<close> tells how many of the bytes given to \<^verbatim>\<open>fwrite\<close> reach it.
\<close>

definition black_white_row :: "u8 list" where
  "black_white_row =
    [0, 0, 0, 255, 255, 255, 255, 255, 0, 0, 0, 255, 255, 255, 255, 255,
     0, 0, 0, 255, 255, 255, 255, 255, 0, 0, 0, 255, 255, 255, 255, 255]"

definition run_with :: "u8 list \<Rightarrow> u32 \<Rightarrow> u32 \<Rightarrow> (nat \<Rightarrow> nat) \<Rightarrow> env" where
  "run_with img width height written =
    \<lparr>argv = [''egaify'', ''in.png'', ''out.raw''],
     load_file = (\<lambda>p. (0, [])),
     decode = (\<lambda>p. (0, img, width, height)),
     vector_ok = (\<lambda>n. True),
     malloc_ok = (\<lambda>n. True),
     fopen_ok = (\<lambda>p. True),
     fwrite_count = written,
     files = Map.empty\<rparr>"

text \<open>
  A 65536-by-16385 image (\<open>2 ^ 30 + 65536\<close> pixels) whose first pixel is white and whose
  other pixels are black and transparent.
\<close>

definition wrap_image :: "u8 list" where
  "wrap_image = [255, 255, 255, 255] @ replicate 4295229436 0"

subsection \<open>Loop invariants\<close>

text \<open>
  After the entries below \<open>i\<close> have been scanned, \<open>best\<close> is a lower bound of their
  distances, and either nothing has been scanned or \<open>idx\<close> is the first entry at
  distance \<open>best\<close>.
\<close>

definition scan_inv :: "u8 list \<Rightarrow> u8 \<Rightarrow> u8 \<Rightarrow> u32 \<Rightarrow> bool" where
  "scan_inv rgb i idx best \<longleftrightarrow>
     (\<forall>j<unat i. best \<le> colour_distance rgb (ega_palette ! j)) \<and>
     (i = 0 \<and> best = 0xffffffff \<or>
      unat idx < unat i \<and> best = colour_distance rgb (ega_palette ! unat idx) \<and>
      (\<forall>j<unat idx. best < colour_distance rgb (ega_palette ! j)))"

text \<open>
  After the first \<open>n\<close> pixels have been packed, bit \<open>j\<close> of byte \<open>k\<close> of plane \<open>p\<close> is
  set exactly when its pixel \<open>8 * k + (7 - j)\<close> is among them and has bit \<open>p\<close> set.
\<close>

definition packed_upto :: "u8 list \<Rightarrow> nat \<Rightarrow> nat \<Rightarrow> u8 list \<Rightarrow> bool" where
  "packed_upto indices ps n out \<longleftrightarrow>
     length out = 4 * ps \<and>
     (\<forall>p<4. \<forall>k<ps. \<forall>j<8.
        bit (out ! (p * ps + k)) j \<longleftrightarrow>
        8 * k + (7 - j) < n \<and> bit (indices ! (8 * k + (7 - j))) p)"

section \<open>The quantiser returns the first nearest palette entry\<close>

lemma byte_diff_sq_le: "(uint (x :: u8) - uint (y :: u8)) * (uint x - uint y) \<le> 65025"
proof -
  have "uint x < 256" "uint y < 256" "0 \<le> uint x" "0 \<le> uint y"
    using uint_lt2p [of x] uint_lt2p [of y] by simp_all
  then have "\<bar>uint x - uint y\<bar> \<le> 255" by linarith
  then have "\<bar>uint x - uint y\<bar> * \<bar>uint x - uint y\<bar> \<le> 255 * 255"
    by (intro mult_mono) simp_all
  then show ?thesis by simp
qed

text \<open>The sum of squares fits the \<^verbatim>\<open>int\<close> it is computed in, and the cast keeps its value.\<close>

lemma colour_distance_uint:
  "uint (colour_distance a b) =
     (uint (a ! 0) - uint (b ! 0)) * (uint (a ! 0) - uint (b ! 0)) +
     (uint (a ! 1) - uint (b ! 1)) * (uint (a ! 1) - uint (b ! 1)) +
     (uint (a ! 2) - uint (b ! 2)) * (uint (a ! 2) - uint (b ! 2))"
proof -
  let ?s = "(uint (a ! 0) - uint (b ! 0)) * (uint (a ! 0) - uint (b ! 0)) +
     (uint (a ! 1) - uint (b ! 1)) * (uint (a ! 1) - uint (b ! 1)) +
     (uint (a ! 2) - uint (b ! 2)) * (uint (a ! 2) - uint (b ! 2))"
  have "?s \<le> 195075"
    using byte_diff_sq_le [of "a ! 0" "b ! 0"] byte_diff_sq_le [of "a ! 1" "b ! 1"]
      byte_diff_sq_le [of "a ! 2" "b ! 2"] by linarith
  moreover have "0 \<le> ?s" by simp
  ultimately have "take_bit 32 ?s = ?s" by (simp add: take_bit_int_eq_self)
  then have "uint (word_of_int ?s :: u32) = ?s"
    by (subst uint_word_of_int_eq) simp
  then show ?thesis
    unfolding colour_distance_def Let_def .
qed

lemma colour_distance_euclid:
  "uint (colour_distance [r, g, b] (ega_palette ! i)) = euclid_sq r g b i"
  by (simp add: colour_distance_uint euclid_sq_def power2_eq_square)

lemma colour_distance_below_max: "colour_distance a b < 0xffffffff"
proof -
  have "uint (colour_distance a b) \<le> 195075"
    unfolding colour_distance_uint
    using byte_diff_sq_le [of "a ! 0" "b ! 0"] byte_diff_sq_le [of "a ! 1" "b ! 1"]
      byte_diff_sq_le [of "a ! 2" "b ! 2"] by linarith
  then show ?thesis by (simp add: word_less_def)
qed

lemma scan_inv_take:
  assumes "scan_inv rgb i idx best" "i < 16"
    "colour_distance rgb (ega_palette ! unat i) < best"
  shows "scan_inv rgb (i + 1) i (colour_distance rgb (ega_palette ! unat i))"
proof -
  have s: "unat (i + 1) = Suc (unat i)" using assms(2) by (rule word_succ_below)
  have a: "\<forall>j<unat i. best \<le> colour_distance rgb (ega_palette ! j)"
    using assms(1) by (simp add: scan_inv_def)
  show ?thesis
    unfolding scan_inv_def s
    using a assms(3) by (auto simp: less_Suc_eq)
qed

lemma scan_inv_keep:
  assumes "scan_inv rgb i idx best" "i < 16"
    "\<not> colour_distance rgb (ega_palette ! unat i) < best"
  shows "scan_inv rgb (i + 1) idx best"
proof -
  have s: "unat (i + 1) = Suc (unat i)" using assms(2) by (rule word_succ_below)
  have "best \<noteq> 0xffffffff"
    using assms(3) colour_distance_below_max [of rgb "ega_palette ! unat i"] by auto
  with assms(1) have b: "unat idx < unat i \<and> best = colour_distance rgb (ega_palette ! unat idx) \<and>
      (\<forall>j<unat idx. best < colour_distance rgb (ega_palette ! j))"
    and a: "\<forall>j<unat i. best \<le> colour_distance rgb (ega_palette ! j)"
    by (auto simp: scan_inv_def)
  show ?thesis
    unfolding scan_inv_def s
    using a b assms(3) by (auto simp: less_Suc_eq)
qed

lemma map_to_ega_loop_inv:
  "scan_inv rgb i idx best \<Longrightarrow> i \<le> 16 \<Longrightarrow>
   scan_inv rgb 16 (map_to_ega_loop rgb i idx best)
     (colour_distance rgb (ega_palette ! unat (map_to_ega_loop rgb i idx best)))"
proof (induction rgb i idx best rule: map_to_ega_loop.induct)
  case (1 rgb i idx best)
  show ?case
  proof (cases "i < 16")
    case False
    with "1.prems" have i: "i = 16" by simp
    from "1.prems"(1) show ?thesis
      by (subst (1 2) map_to_ega_loop.simps) (auto simp: i scan_inv_def)
  next
    case True
    then have le: "i + 1 \<le> 16" by (rule inc_le)
    let ?d = "colour_distance rgb (ega_palette ! unat i)"
    show ?thesis
    proof (cases "?d < best")
      case t: True
      have "scan_inv rgb (i + 1) i ?d"
        using "1.prems"(1) True t by (rule scan_inv_take)
      from "1.IH"(1) [OF True refl t this le] show ?thesis
        using True t by (subst (1 2) map_to_ega_loop.simps) (simp add: Let_def)
    next
      case f: False
      have "scan_inv rgb (i + 1) idx best"
        using "1.prems"(1) True f by (rule scan_inv_keep)
      from "1.IH"(2) [OF True refl f this le] show ?thesis
        using True f by (subst (1 2) map_to_ega_loop.simps) (simp add: Let_def)
    qed
  qed
qed

lemma map_to_ega_scan:
  "scan_inv [r, g, b] 16 (map_to_ega r g b)
     (colour_distance [r, g, b] (ega_palette ! unat (map_to_ega r g b)))"
  unfolding map_to_ega_def
  by (rule map_to_ega_loop_inv) (simp_all add: scan_inv_def)

lemma euclid_sq_le_iff:
  "euclid_sq r g b i \<le> euclid_sq r g b j \<longleftrightarrow>
   colour_distance [r, g, b] (ega_palette ! i) \<le> colour_distance [r, g, b] (ega_palette ! j)"
  by (simp add: word_le_def colour_distance_euclid)

lemma euclid_sq_less_iff:
  "euclid_sq r g b i < euclid_sq r g b j \<longleftrightarrow>
   colour_distance [r, g, b] (ega_palette ! i) < colour_distance [r, g, b] (ega_palette ! j)"
  by (simp add: word_less_def colour_distance_euclid)

lemma map_to_ega_nearest:
  "unat (map_to_ega r g b) < 16 \<and>
   (\<forall>j<16. euclid_sq r g b (unat (map_to_ega r g b)) \<le> euclid_sq r g b j) \<and>
   (\<forall>j<unat (map_to_ega r g b). euclid_sq r g b (unat (map_to_ega r g b)) < euclid_sq r g b j)"
  using map_to_ega_scan [of r g b]
  by (simp add: scan_inv_def euclid_sq_le_iff euclid_sq_less_iff)

lemma map_to_ega_tie: "map_to_ega 0 0 0x55 = 0"
  by (simp add: map_to_ega_def map_to_ega_loop.simps colour_distance_def ega_palette_def Let_def)

text \<open>
  C1. For every pixel \<open>(r, g, b)\<close>, \<^verbatim>\<open>map_to_ega\<close> returns the least index \<open>i\<close> in
  \<open>0..15\<close> whose squared Euclidean distance to the pixel is at most the distance of
  every palette entry: a nearest entry, and the lowest index among equidistant ones.
\<close>

theorem map_to_ega_least_nearest:
  "unat (map_to_ega r g b) =
     (LEAST i. i < 16 \<and> (\<forall>j<16. euclid_sq r g b i \<le> euclid_sq r g b j))"
proof (rule Least_equality [symmetric])
  show "unat (map_to_ega r g b) < 16 \<and>
    (\<forall>j<16. euclid_sq r g b (unat (map_to_ega r g b)) \<le> euclid_sq r g b j)"
    using map_to_ega_nearest [of r g b] by simp
next
  fix y
  assume y: "y < 16 \<and> (\<forall>j<16. euclid_sq r g b y \<le> euclid_sq r g b j)"
  show "unat (map_to_ega r g b) \<le> y"
  proof (rule ccontr)
    assume "\<not> unat (map_to_ega r g b) \<le> y"
    then have "y < unat (map_to_ega r g b)" by simp
    then have "euclid_sq r g b (unat (map_to_ega r g b)) < euclid_sq r g b y"
      using map_to_ega_nearest [of r g b] by simp
    moreover have "euclid_sq r g b y \<le> euclid_sq r g b (unat (map_to_ega r g b))"
      using y map_to_ega_nearest [of r g b] by simp
    ultimately show False by simp
  qed
qed

text \<open>
  The pixel \<open>(0, 0, 0x55)\<close> is as far from black (entry 0) as from blue (entry 1), and
  the least nearest index is 0.
\<close>

theorem map_to_ega_least_nearest_witness:
  "euclid_sq 0 0 0x55 0 = euclid_sq 0 0 0x55 1 \<and>
   (LEAST i. i < 16 \<and> (\<forall>j<16. euclid_sq 0 0 0x55 i \<le> euclid_sq 0 0 0x55 j)) = 0"
  using map_to_ega_least_nearest [of 0 0 "0x55"]
  by (simp add: map_to_ega_tie euclid_sq_def ega_palette_def)

section \<open>The packer writes the planar layout\<close>

lemma plane_index_bound: "p < 4 \<Longrightarrow> k < ps \<Longrightarrow> p * ps + k < 4 * (ps::nat)"
proof -
  assume p: "p < 4" and k: "k < ps"
  then have "p * ps + k < Suc p * ps" by simp
  also have "\<dots> \<le> 4 * ps" using p by (intro mult_le_mono1) simp
  finally show ?thesis .
qed

lemma plane_index_inj:
  assumes "k < ps" "k' < ps"
  shows "p * ps + k = q * ps + k' \<longleftrightarrow> p = q \<and> k = (k'::nat)"
proof
  assume e: "p * ps + k = q * ps + k'"
  have "(p * ps + k) div ps = p" "(q * ps + k') div ps = q" using assms by simp_all
  then have "p = q" using e by metis
  with e show "p = q \<and> k = k'" by simp
qed simp

lemma test_bit_shift: "drop_bit n (w :: u32) AND 1 \<noteq> 0 \<longleftrightarrow> bit w n"
  by (simp add: and_one_eq bit_iff_odd_drop_bit mod_2_eq_odd)

lemma planar_plane_loop_result:
  assumes "length out = 4 * ps" "unat byte_offset < ps" "plane \<le> 4"
  shows "\<exists>out'. planar_plane_loop out ps px bitn byte_offset plane = Inr out' \<and>
     length out' = 4 * ps \<and>
     (\<forall>p<4. \<forall>k<ps. out' ! (p * ps + k) =
        (if unat plane \<le> p \<and> k = unat byte_offset \<and> bit px p
         then out ! (p * ps + k) OR push_bit (unat bitn) 1 else out ! (p * ps + k)))"
  using assms
proof (induction out ps px bitn byte_offset plane rule: planar_plane_loop.induct)
  case (1 out ps px bitn byte_offset plane)
  show ?case
  proof (cases "plane < 4")
    case False
    with "1.prems"(3) have "plane = 4" by simp
    then show ?thesis using "1.prems"(1)
      by (subst planar_plane_loop.simps) simp
  next
    case True
    have s: "unat (plane + 1) = Suc (unat plane)" using True by (rule word_succ_below)
    have le: "plane + 1 \<le> 4" using True by (rule inc_le)
    have pl: "unat plane < 4" using True by (simp add: word_less_nat_alt)
    show ?thesis
    proof (cases "bit px (unat plane)")
      case b: True
      let ?k = "unat plane * ps + unat byte_offset"
      let ?out1 = "out[?k := out ! ?k OR push_bit (unat bitn) 1]"
      have kb: "?k < length out"
        using plane_index_bound [OF pl "1.prems"(2)] "1.prems"(1) by simp
      have len1: "length ?out1 = 4 * ps" using "1.prems"(1) by simp
      have t: "drop_bit (unat plane) px AND 1 \<noteq> 0" using b by (simp add: test_bit_shift)
      from "1.IH"(1) [OF True t refl kb len1 "1.prems"(2) le]
      obtain out' where o: "planar_plane_loop ?out1 ps px bitn byte_offset (plane + 1) = Inr out'"
        "length out' = 4 * ps"
        "\<forall>p<4. \<forall>k<ps. out' ! (p * ps + k) =
           (if unat (plane + 1) \<le> p \<and> k = unat byte_offset \<and> bit px p
            then ?out1 ! (p * ps + k) OR push_bit (unat bitn) 1 else ?out1 ! (p * ps + k))"
        by blast
      have r: "planar_plane_loop out ps px bitn byte_offset plane = Inr out'"
        using True t kb o(1) by (subst planar_plane_loop.simps) (simp add: Let_def)
      have "\<forall>p<4. \<forall>k<ps. out' ! (p * ps + k) =
           (if unat plane \<le> p \<and> k = unat byte_offset \<and> bit px p
            then out ! (p * ps + k) OR push_bit (unat bitn) 1 else out ! (p * ps + k))"
      proof (intro allI impI)
        fix p k :: nat assume p: "p < 4" and k: "k < ps"
        have i: "p * ps + k < length out"
          using plane_index_bound [OF p k] "1.prems"(1) by simp
        have e: "p * ps + k = ?k \<longleftrightarrow> p = unat plane \<and> k = unat byte_offset"
          using k "1.prems"(2) by (rule plane_index_inj)
        show "out' ! (p * ps + k) =
           (if unat plane \<le> p \<and> k = unat byte_offset \<and> bit px p
            then out ! (p * ps + k) OR push_bit (unat bitn) 1 else out ! (p * ps + k))"
        proof -
          have e': "?k = p * ps + k \<longleftrightarrow> p = unat plane \<and> k = unat byte_offset"
            using e by auto
          have u: "?out1 ! (p * ps + k) =
            (if p = unat plane \<and> k = unat byte_offset
             then out ! (p * ps + k) OR push_bit (unat bitn) 1 else out ! (p * ps + k))"
          proof (cases "p = unat plane \<and> k = unat byte_offset")
            case True
            then show ?thesis using kb by simp
          next
            case False
            then have "?k \<noteq> p * ps + k" using e' by simp
            then show ?thesis using False by auto
          qed
          show ?thesis
            unfolding o(3) [rule_format, OF p k] u s using b
            by (cases "p = unat plane") auto
        qed
      qed
      with r o(2) show ?thesis by blast
    next
      case b: False
      have t: "\<not> drop_bit (unat plane) px AND 1 \<noteq> 0" using b by (simp add: test_bit_shift)
      from "1.IH"(2) [OF True t "1.prems"(1) "1.prems"(2) le]
      obtain out' where o: "planar_plane_loop out ps px bitn byte_offset (plane + 1) = Inr out'"
        "length out' = 4 * ps"
        "\<forall>p<4. \<forall>k<ps. out' ! (p * ps + k) =
           (if unat (plane + 1) \<le> p \<and> k = unat byte_offset \<and> bit px p
            then out ! (p * ps + k) OR push_bit (unat bitn) 1 else out ! (p * ps + k))"
        by blast
      have r: "planar_plane_loop out ps px bitn byte_offset plane = Inr out'"
        using True t o(1) by (subst planar_plane_loop.simps) simp
      have "\<forall>p<4. \<forall>k<ps. out' ! (p * ps + k) =
           (if unat plane \<le> p \<and> k = unat byte_offset \<and> bit px p
            then out ! (p * ps + k) OR push_bit (unat bitn) 1 else out ! (p * ps + k))"
      proof (intro allI impI)
        fix p k :: nat assume p: "p < 4" and k: "k < ps"
        show "out' ! (p * ps + k) =
           (if unat plane \<le> p \<and> k = unat byte_offset \<and> bit px p
            then out ! (p * ps + k) OR push_bit (unat bitn) 1 else out ! (p * ps + k))"
          using o(3) [rule_format, OF p k] b
          by (cases "p = unat plane") (auto simp: s)
      qed
      with r o(2) show ?thesis by blast
    qed
  qed
qed

lemma low_nibble_bit: "p < 4 \<Longrightarrow> bit (ucast (v :: u8) AND (0x0F :: u32)) p \<longleftrightarrow> bit v p"
proof -
  assume p: "p < 4"
  then have "bit (mask 4 :: u32) p" by (simp add: bit_mask_iff)
  moreover have "(mask 4 :: u32) = 0x0F" by (simp add: mask_eq_exp_minus_1)
  ultimately have "bit (0x0F :: u32) p" by (simp only:)
  then show ?thesis using p by (simp add: bit_and_iff bit_ucast_iff)
qed

lemma bit_or_single: "j < 8 \<Longrightarrow> bit ((v :: u8) OR push_bit m 1) j \<longleftrightarrow> bit v j \<or> j = m"
  by (auto simp: bit_or_iff bit_exp_iff)

lemma seven_minus: "m < 8 \<Longrightarrow> j = 7 - m \<Longrightarrow> 7 - j = (m::nat)"
  by simp

lemma bit_position_unique:
  assumes j: "j < 8"
  shows "8 * k + (7 - j) = n \<longleftrightarrow> k = n div 8 \<and> j = 7 - n mod (8::nat)"
proof
  assume e: "8 * k + (7 - j) = n"
  have r: "7 - j < 8" by simp
  have "(8 * k + (7 - j)) div 8 = k" "(8 * k + (7 - j)) mod 8 = 7 - j"
    using r by simp_all
  then have "n div 8 = k" "n mod 8 = 7 - j" by (simp_all only: e)
  then show "k = n div 8 \<and> j = 7 - n mod 8" using j by simp
next
  assume a: "k = n div 8 \<and> j = 7 - n mod 8"
  have "n mod 8 < 8" by simp
  then have "7 - j = n mod 8" using a by (intro seven_minus) simp_all
  then show "8 * k + (7 - j) = n" using a by simp
qed

lemma upto_suc_logic:
  "(m = n \<longleftrightarrow> c) \<Longrightarrow> (m < n \<and> B m \<or> c \<and> B n) = ((m < n \<or> m = n) \<and> B (m::nat))"
  by auto

lemma packed_upto_step:
  assumes inv: "packed_upto indices ps n out" and n: "n < 8 * ps"
    and px: "px = ucast (indices ! n) AND 0x0F"
    and bn: "unat bitn = 7 - n mod 8" and bo: "unat byte_offset = n div 8"
  shows "\<exists>out'. planar_plane_loop out ps px bitn byte_offset 0 = Inr out' \<and>
           packed_upto indices ps (Suc n) out'"
proof -
  have len: "length out = 4 * ps" using inv by (simp add: packed_upto_def)
  have bo': "unat byte_offset < ps" using n bo by simp
  from planar_plane_loop_result [OF len bo', of 0 px bitn]
  obtain out' where o: "planar_plane_loop out ps px bitn byte_offset 0 = Inr out'"
    "length out' = 4 * ps"
    "\<forall>p<4. \<forall>k<ps. out' ! (p * ps + k) =
        (if k = unat byte_offset \<and> bit px p
         then out ! (p * ps + k) OR push_bit (unat bitn) 1 else out ! (p * ps + k))"
    by auto
  have "packed_upto indices ps (Suc n) out'"
    unfolding packed_upto_def
  proof (intro conjI allI impI)
    show "length out' = 4 * ps" by fact
  next
    fix p k j :: nat
    assume p: "p < 4" and k: "k < ps" and j: "j < 8"
    have old: "bit (out ! (p * ps + k)) j \<longleftrightarrow>
        8 * k + (7 - j) < n \<and> bit (indices ! (8 * k + (7 - j))) p"
      using inv p k j by (simp add: packed_upto_def)
    have key: "8 * k + (7 - j) = n \<longleftrightarrow> k = n div 8 \<and> j = 7 - n mod 8"
      using j by (rule bit_position_unique)
    have pxb: "bit px p \<longleftrightarrow> bit (indices ! n) p"
      unfolding px using p by (rule low_nibble_bit)
    have new: "bit (out' ! (p * ps + k)) j \<longleftrightarrow>
        bit (out ! (p * ps + k)) j \<or> ((k = n div 8 \<and> j = 7 - n mod 8) \<and> bit (indices ! n) p)"
    proof (cases "k = n div 8 \<and> bit (indices ! n) p")
      case True
      then have "k = unat byte_offset \<and> bit px p"
        by (simp add: bo pxb)
      then have "out' ! (p * ps + k) = out ! (p * ps + k) OR push_bit (unat bitn) 1"
        using o(3) [rule_format, OF p k] by simp
      then show ?thesis using True j by (simp only: bit_or_single bn) blast
    next
      case False
      then have "\<not> (k = unat byte_offset \<and> bit px p)"
        by (simp add: bo pxb)
      then have "out' ! (p * ps + k) = out ! (p * ps + k)"
        using o(3) [rule_format, OF p k] by (simp only: if_False)
      then show ?thesis using False by (simp only:) blast
    qed
    show "bit (out' ! (p * ps + k)) j \<longleftrightarrow>
        8 * k + (7 - j) < Suc n \<and> bit (indices ! (8 * k + (7 - j))) p"
      unfolding new old less_Suc_eq
      by (rule upto_suc_logic [OF key, where B = "\<lambda>i. bit (indices ! i) p"])
  qed
  with o(1) show ?thesis by blast
qed

lemma pixel_offset_unat:
  fixes x y w h :: u32
  assumes "unat w * unat h < 2 ^ 32" "y < h" "x < w"
  shows "unat (y * w + x) = unat y * unat w + unat x"
    and "unat y * unat w + unat x < unat w * unat h"
proof -
  have yx: "unat y < unat h" "unat x < unat w"
    using assms(2,3) by (simp_all add: word_less_nat_alt)
  then have "unat y * unat w + unat x < Suc (unat y) * unat w" by simp
  also have "\<dots> \<le> unat h * unat w" using yx(1) by (intro mult_le_mono1) simp
  finally show b: "unat y * unat w + unat x < unat w * unat h" by (simp add: mult.commute)
  with assms(1) have c: "unat y * unat w + unat x < 2 ^ 32" by linarith
  then have "unat y * unat w < 2 ^ 32" by linarith
  then have "unat (y * w) = unat y * unat w" by (simp add: unat_word_ariths)
  with c show "unat (y * w + x) = unat y * unat w + unat x"
    by (simp add: unat_word_ariths)
qed

lemma bit_number_unat: "unat (7 - ((x :: u32) AND 7)) = 7 - unat x mod 8"
proof -
  have "(7 :: u32) = mask 3" by (simp add: mask_eq_exp_minus_1)
  then have "x AND 7 = take_bit 3 x" by (simp only: take_bit_eq_mask)
  then have "unat (x AND 7) = take_bit 3 (unat x)" by (simp only: unsigned_take_bit_eq)
  then have u: "unat (x AND 7) = unat x mod 8" by (simp only: take_bit_eq_mod) simp
  then have "unat (x AND 7) \<le> unat (7 :: u32)" by simp
  then have "x AND 7 \<le> 7" by (simp only: word_le_nat_alt)
  then have "unat (7 - (x AND 7)) = unat (7 :: u32) - unat (x AND 7)" by (rule unat_sub)
  with u show ?thesis by simp
qed

lemma planar_x_loop_result:
  assumes "unat width * unat height < 2 ^ 32" "8 dvd unat width"
    "length indices = unat width * unat height" "8 * ps = unat width * unat height"
    "y < height" "x \<le> width"
    "packed_upto indices ps (unat y * unat width + unat x) out"
  shows "\<exists>out'. planar_x_loop indices width ps y x out = Inr out' \<and>
           packed_upto indices ps (unat y * unat width + unat width) out'"
  using assms
proof (induction indices width ps y x out rule: planar_x_loop.induct)
  case (1 indices width ps y x out)
  show ?case
  proof (cases "x < width")
    case False
    with "1.prems"(6) have "x = width" by simp
    then show ?thesis using "1.prems"(7)
      by (subst planar_x_loop.simps) simp
  next
    case True
    let ?n = "y * width + x"
    have un: "unat ?n = unat y * unat width + unat x"
      using "1.prems"(1,5) True by (rule pixel_offset_unat)
    have lt: "unat ?n < length indices"
      unfolding un "1.prems"(3) using "1.prems"(1,5) True by (rule pixel_offset_unat)
    have n8: "unat ?n < 8 * ps" using lt "1.prems"(3,4) by simp
    have md: "unat ?n mod 8 = unat x mod 8"
    proof -
      from "1.prems"(2) obtain c where "unat width = 8 * c" by (rule dvdE)
      then have "unat y * unat width + unat x = unat x + 8 * (unat y * c)" by simp
      then show ?thesis unfolding un by (simp only: mod_mult_self2)
    qed
    have bn: "unat (7 - (x AND 7)) = 7 - unat ?n mod 8"
      by (simp only: bit_number_unat md)
    have bo: "unat (?n div 8) = unat ?n div 8" by (simp add: unat_div)
    have inv: "packed_upto indices ps (unat ?n) out" using "1.prems"(7) by (simp only: un)
    from packed_upto_step [OF inv n8 refl bn bo]
    obtain out1 where o1:
      "planar_plane_loop out ps (ucast (indices ! unat ?n) AND 0x0F) (7 - (x AND 7)) (?n div 8) 0 = Inr out1"
      "packed_upto indices ps (Suc (unat ?n)) out1"
      by blast
    have s: "unat (x + 1) = Suc (unat x)" using True by (rule word_succ_below)
    have le: "x + 1 \<le> width" using True by (rule inc_le)
    have inv1: "packed_upto indices ps (unat y * unat width + unat (x + 1)) out1"
      using o1(2) by (simp add: un s)
    from "1.IH" [OF True refl lt refl refl refl o1(1) "1.prems"(1,2,3,4,5) le inv1]
    obtain out' where o: "planar_x_loop indices width ps y (x + 1) out1 = Inr out'"
      "packed_upto indices ps (unat y * unat width + unat width) out'"
      by blast
    have "planar_x_loop indices width ps y x out = Inr out'"
      using True lt o1(1) o(1) by (subst planar_x_loop.simps) (simp add: Let_def)
    with o(2) show ?thesis by blast
  qed
qed

lemma planar_y_loop_result:
  assumes "unat width * unat height < 2 ^ 32" "8 dvd unat width"
    "length indices = unat width * unat height" "8 * ps = unat width * unat height"
    "y \<le> height"
    "packed_upto indices ps (unat y * unat width) out"
  shows "\<exists>out'. planar_y_loop indices width height ps y out = Inr out' \<and>
           packed_upto indices ps (unat height * unat width) out'"
  using assms
proof (induction indices width height ps y out rule: planar_y_loop.induct)
  case (1 indices width height ps y out)
  show ?case
  proof (cases "y < height")
    case False
    with "1.prems"(5) have "y = height" by simp
    then show ?thesis using "1.prems"(6)
      by (subst planar_y_loop.simps) simp
  next
    case True
    have inv: "packed_upto indices ps (unat y * unat width + unat (0 :: u32)) out"
      using "1.prems"(6) by simp
    from planar_x_loop_result [OF "1.prems"(1,2,3,4) True _ inv]
    obtain out1 where o1: "planar_x_loop indices width ps y 0 out = Inr out1"
      "packed_upto indices ps (unat y * unat width + unat width) out1"
      by auto
    have s: "unat (y + 1) = Suc (unat y)" using True by (rule word_succ_below)
    have le: "y + 1 \<le> height" using True by (rule inc_le)
    have "unat (y + 1) * unat width = unat y * unat width + unat width" by (simp add: s)
    then have inv1: "packed_upto indices ps (unat (y + 1) * unat width) out1"
      using o1(2) by (simp only:)
    from "1.IH" [OF True o1(1) "1.prems"(1,2,3,4) le inv1]
    obtain out' where o: "planar_y_loop indices width height ps (y + 1) out1 = Inr out'"
      "packed_upto indices ps (unat height * unat width) out'"
      by blast
    have "planar_y_loop indices width height ps y out = Inr out'"
      using True o1(1) o(1) by (subst planar_y_loop.simps) simp
    with o(2) show ?thesis by blast
  qed
qed

lemma packed_upto_initial: "packed_upto indices ps 0 (replicate (ps * 4) 0)"
  unfolding packed_upto_def
proof (intro conjI allI impI)
  show "length (replicate (ps * 4) (0 :: u8)) = 4 * ps" by simp
next
  fix p k j :: nat
  assume "p < 4" "k < ps" "j < 8"
  then have "p * ps + k < ps * 4" using plane_index_bound [of p k ps] by simp
  then have "replicate (ps * 4) (0 :: u8) ! (p * ps + k) = 0" by simp
  then show "bit (replicate (ps * 4) (0 :: u8) ! (p * ps + k)) j \<longleftrightarrow>
      8 * k + (7 - j) < 0 \<and> bit (indices ! (8 * k + (7 - j))) p"
    by simp
qed

lemma plane_size_unat:
  fixes w h :: u32
  assumes "unat w * unat h < 2 ^ 32"
  shows "unat (w * h) = unat w * unat h"
    and "unat ((w * h) div 8) = unat w * unat h div 8"
proof -
  show a: "unat (w * h) = unat w * unat h"
    using assms by (simp add: unat_word_ariths)
  show "unat ((w * h) div 8) = unat w * unat h div 8"
    by (simp add: unat_div a)
qed

lemma plane_size_exact:
  assumes "8 dvd (w :: nat)"
  shows "8 * (w * h div 8) = w * h"
proof -
  from assms have "8 dvd w * h" by simp
  then show ?thesis by simp
qed

text \<open>The \<^verbatim>\<open>size_t\<close> values of the packer stay below \<open>2 ^ 31\<close>.\<close>

lemma plane_bytes_fit:
  fixes width height n :: u32
  assumes "p < 4"
  shows "unat ((width * height) div 8) * 4 < 2 ^ 31"
    and "p * unat ((width * height) div 8) + unat (n div 8) < 2 ^ 31"
proof -
  have "unat (width * height) < 2 ^ LENGTH(32)" by (rule unsigned_less)
  then have a: "unat ((width * height) div 8) < 2 ^ 29" by (simp add: unat_div)
  have "unat n < 2 ^ LENGTH(32)" by (rule unsigned_less)
  then have b: "unat (n div 8) < 2 ^ 29" by (simp add: unat_div)
  show "unat ((width * height) div 8) * 4 < 2 ^ 31" using a by simp
  have "p * unat ((width * height) div 8) \<le> 3 * unat ((width * height) div 8)"
    using assms by (intro mult_le_mono1) simp
  then have "p * unat ((width * height) div 8) + unat (n div 8) \<le>
      3 * unat ((width * height) div 8) + unat (n div 8)"
    by (rule add_le_mono1)
  also have "\<dots> < 2 ^ 31" using a b by simp
  finally show "p * unat ((width * height) div 8) + unat (n div 8) < 2 ^ 31" .
qed

lemma convert_to_planar_packed:
  assumes "unat width * unat height < 2 ^ 32" "8 dvd unat width"
    "length indices = unat width * unat height"
    "m (unat width * unat height div 8 * 4)"
  shows "\<exists>out. convert_to_planar m indices width height = Inr out \<and>
     packed_upto indices (unat width * unat height div 8)
       (8 * (unat width * unat height div 8)) out"
proof -
  let ?ps = "unat width * unat height div 8"
  have ps: "unat ((width * height) div 8) = ?ps" using assms(1) by (rule plane_size_unat)
  have ex: "8 * ?ps = unat width * unat height" using assms(2) by (rule plane_size_exact)
  have inv: "packed_upto indices ?ps (unat (0 :: u32) * unat width) (replicate (?ps * 4) 0)"
    using packed_upto_initial [of indices ?ps] by simp
  have z: "(0 :: u32) \<le> height" by simp
  from planar_y_loop_result [OF assms(1,2,3) ex z inv]
  obtain out where o: "planar_y_loop indices width height ?ps 0 (replicate (?ps * 4) 0) = Inr out"
    "packed_upto indices ?ps (unat height * unat width) out"
    by auto
  have "convert_to_planar m indices width height = Inr out"
    using assms(4) o(1) by (simp add: convert_to_planar_def ps)
  moreover have "unat height * unat width = 8 * ?ps" using ex by (simp add: mult.commute)
  then have "packed_upto indices ?ps (8 * ?ps) out"
    using o(2) by (simp only:)
  ultimately show ?thesis by blast
qed

lemma plane_byte_bit:
  "bit (plane_byte indices p k) j \<longleftrightarrow> j < 8 \<and> bit (indices ! (8 * k + (7 - j))) p"
proof (cases "j < 8")
  case True
  then have "[0..<8] ! (7 - j) = 7 - j" using nth_upt [of 0 "7 - j" 8] by simp
  then have "rev (map (\<lambda>j. bit (indices ! (8 * k + j)) p) [0..<8]) ! j =
      bit (indices ! (8 * k + (7 - j))) p"
    using True by (simp add: rev_nth)
  then show ?thesis using True
    by (simp add: plane_byte_def bit_horner_sum_bit_word_iff)
next
  case False
  then show ?thesis by (simp add: plane_byte_def bit_horner_sum_bit_word_iff)
qed

lemma packed_full_byte:
  assumes "packed_upto indices ps (8 * ps) out" "p < 4" "k < ps"
  shows "out ! (p * ps + k) = plane_byte indices p k"
proof (rule bit_word_eqI)
  fix j
  assume "j < LENGTH(8)"
  then have j: "j < 8" by simp
  have "8 * k + (7 - j) < 8 * ps" using assms(3) by simp
  then show "bit (out ! (p * ps + k)) j \<longleftrightarrow> bit (plane_byte indices p k) j"
    using assms j by (simp add: packed_upto_def plane_byte_bit)
qed

lemma four_planes_eq:
  assumes len: "length out = 4 * ps"
    and nth: "\<And>p k. p < 4 \<Longrightarrow> k < ps \<Longrightarrow> out ! (p * ps + k) = f p k"
  shows "out = map (f 0) [0..<ps] @ map (f 1) [0..<ps] @ map (f 2) [0..<ps] @ map (f 3) [0..<ps]"
proof (rule nth_equalityI)
  show "length out =
    length (map (f 0) [0..<ps] @ map (f 1) [0..<ps] @ map (f 2) [0..<ps] @ map (f 3) [0..<ps])"
    using len by simp
next
  fix i
  assume "i < length out"
  then have i: "i < 4 * ps" using len by simp
  consider "i < ps" | "ps \<le> i" "i < 2 * ps" | "2 * ps \<le> i" "i < 3 * ps" | "3 * ps \<le> i"
    by linarith
  then show "out ! i =
    (map (f 0) [0..<ps] @ map (f 1) [0..<ps] @ map (f 2) [0..<ps] @ map (f 3) [0..<ps]) ! i"
  proof cases
    case 1
    then show ?thesis using nth [of 0 i] by (simp add: nth_append)
  next
    case 2
    then have k: "i - ps < ps" "\<not> i < ps" "1 * ps + (i - ps) = i" by simp_all
    have "out ! (1 * ps + (i - ps)) = f 1 (i - ps)" using k(1) by (intro nth) simp_all
    then show ?thesis using k by (auto simp: nth_append)
  next
    case 3
    then have k: "i - 2 * ps < ps" "\<not> i < ps" "\<not> i - ps < ps" "i - ps - ps = i - 2 * ps"
      "2 * ps + (i - 2 * ps) = i" by simp_all
    have "out ! (2 * ps + (i - 2 * ps)) = f 2 (i - 2 * ps)" using k(1) by (intro nth) simp_all
    then show ?thesis using k by (auto simp: nth_append)
  next
    case 4
    then have k: "i - 3 * ps < ps" "\<not> i < ps" "\<not> i - ps < ps" "\<not> i - ps - ps < ps"
      "i - ps - ps - ps = i - 3 * ps" "3 * ps + (i - 3 * ps) = i" using i by simp_all
    have "out ! (3 * ps + (i - 3 * ps)) = f 3 (i - 3 * ps)" using k(1) by (intro nth) simp_all
    then show ?thesis using k by (auto simp: nth_append)
  qed
qed

lemma packed_full_layout:
  assumes "packed_upto indices ps (8 * ps) out"
  shows "out = planar_layout indices ps"
  unfolding planar_layout_def plane_bytes_def
proof (rule four_planes_eq)
  show "length out = 4 * ps" using assms by (simp add: packed_upto_def)
next
  fix p k :: nat
  assume "p < 4" "k < ps"
  with assms show "out ! (p * ps + k) = plane_byte indices p k" by (rule packed_full_byte)
qed

text \<open>The function computed by the packer, when the pixel count fits an \<^verbatim>\<open>unsigned\<close>.\<close>

lemma convert_to_planar_layout:
  assumes "unat width * unat height < 2 ^ 32" "8 dvd unat width"
    "length indices = unat width * unat height"
    "m (unat width * unat height div 8 * 4)"
  shows "convert_to_planar m indices width height =
     Inr (planar_layout indices (unat width * unat height div 8))"
proof -
  from convert_to_planar_packed [where m = m and indices = indices and width = width
      and height = height] assms
  obtain out where "convert_to_planar m indices width height = Inr out"
    "packed_upto indices (unat width * unat height div 8)
       (8 * (unat width * unat height div 8)) out"
    by blast
  then show ?thesis using packed_full_layout by blast
qed

lemma length_planar_layout: "length (planar_layout indices ps) = 4 * ps"
  by (simp add: planar_layout_def plane_bytes_def)

section \<open>Unpacking the planes\<close>

lemma index_high_bits_clear:
  assumes "(v :: u8) < 16" "bit v p"
  shows "p < 4"
proof -
  from assms(1) have "v < 2 ^ 4" by simp
  then have "v AND mask 4 = v" by (rule less_mask_eq)
  with assms(2) have "bit (v AND mask 4) p" by simp
  then show ?thesis by (simp add: bit_and_iff bit_mask_iff)
qed

lemma row_major_split:
  assumes "8 dvd (w :: nat)" "x < w" "y < h"
  shows "(y * w + x) div 8 < w * h div 8" and "(y * w + x) mod 8 = x mod 8"
    and "y * w + x < w * h"
proof -
  from assms(1) obtain c where c: "w = 8 * c" by (rule dvdE)
  have "y * w + x < Suc y * w" using assms(2) by simp
  also have "\<dots> \<le> h * w" using assms(3) by (intro mult_le_mono1) simp
  finally show lt: "y * w + x < w * h" by (simp add: mult.commute)
  have "w * h = 8 * (w * h div 8)" using plane_size_exact [OF assms(1), of h] by simp
  with lt have "y * w + x < 8 * (w * h div 8)" by simp
  then show "(y * w + x) div 8 < w * h div 8" by simp
  have "y * w + x = x + 8 * (y * c)" using c by simp
  then show "(y * w + x) mod 8 = x mod 8" by (simp only: mod_mult_self2)
qed

lemma unpack_index_packed:
  assumes pk: "packed_upto indices (w * h div 8) (8 * (w * h div 8)) planes"
    and w: "8 dvd w" and x: "x < w" and y: "y < h"
    and v: "indices ! (y * w + x) < 16"
  shows "unpack_index planes (w * h div 8) w y x = indices ! (y * w + x)"
proof (rule bit_word_eqI)
  fix p
  assume "p < LENGTH(8)"
  let ?ps = "w * h div 8"
  let ?n = "y * w + x"
  have k: "?n div 8 < ?ps" and m: "?n mod 8 = x mod 8"
    using w x y by (rule row_major_split)+
  have "?n < w * h" using w x y by (rule row_major_split)
  then have lt8: "?n < 8 * ?ps" using plane_size_exact [OF w, of h] by simp
  have j: "7 - x mod 8 < 8" by simp
  have e: "8 * (?n div 8) + (7 - (7 - x mod 8)) = ?n"
    using bit_position_unique [OF j, of "?n div 8" ?n] m by simp
  have b: "bit (unpack_index planes ?ps w y x) p \<longleftrightarrow>
      p < 4 \<and> bit (planes ! (p * ?ps + ?n div 8)) (7 - x mod 8)"
    by (auto simp: unpack_index_def bit_horner_sum_bit_word_iff)
  show "bit (unpack_index planes ?ps w y x) p \<longleftrightarrow> bit (indices ! ?n) p"
  proof (cases "p < 4")
    case True
    have "bit (planes ! (p * ?ps + ?n div 8)) (7 - x mod 8) \<longleftrightarrow>
        8 * (?n div 8) + (7 - (7 - x mod 8)) < 8 * ?ps \<and>
        bit (indices ! (8 * (?n div 8) + (7 - (7 - x mod 8)))) p"
      using pk True k j by (simp only: packed_upto_def)
    also have "\<dots> \<longleftrightarrow> bit (indices ! ?n) p"
      using lt8 by (simp only: e) simp
    finally show ?thesis using True by (simp only: b) simp
  next
    case False
    then have "\<not> bit (indices ! ?n) p" using index_high_bits_clear [OF v] by blast
    then show ?thesis using False by (simp only: b) simp
  qed
qed

lemma unpack_packed:
  assumes pk: "packed_upto indices (w * h div 8) (8 * (w * h div 8)) planes"
    and w: "8 dvd w" and len: "length indices = w * h"
    and v: "\<forall>v\<in>set indices. v < 16"
  shows "unpack planes w h = indices"
proof (rule nth_equalityI)
  show "length (unpack planes w h) = length indices" by (simp add: unpack_def len)
next
  fix n
  assume "n < length (unpack planes w h)"
  then have n: "n < w * h" by (simp add: unpack_def)
  then have w0: "0 < w" by (cases w) simp_all
  have x: "n mod w < w" using w0 by simp
  have y: "n div w < h" using n w0 by (simp add: less_mult_imp_div_less mult.commute)
  have e: "n div w * w + n mod w = n" by simp
  have "indices ! n < 16" using v n len by simp
  then have "unpack_index planes (w * h div 8) w (n div w) (n mod w) = indices ! n"
    using unpack_index_packed [OF pk w x y] by (simp only: e)
  then show "unpack planes w h ! n = indices ! n" using n by (simp add: unpack_def)
qed

text \<open>
  C2 (amended). When the pixel count fits an \<^verbatim>\<open>unsigned\<close> (\<open>width * height < 2 ^ 32\<close>),
  the width is a multiple of 8, the index buffer has \<open>width * height\<close> entries, all in
  \<open>0..15\<close>, and the allocation succeeds, \<^verbatim>\<open>convert_to_planar\<close> returns planes from which
  unpacking reconstructs every pixel's index, and so the whole index buffer.
\<close>

theorem planar_round_trip:
  assumes "unat width * unat height < 2 ^ 32" "8 dvd unat width"
    "length indices = unat width * unat height" "\<forall>v\<in>set indices. v < 16"
    "m (unat width * unat height div 8 * 4)"
  shows "\<exists>planes. convert_to_planar m indices width height = Inr planes \<and>
     (\<forall>y<unat height. \<forall>x<unat width.
        unpack_index planes (unat width * unat height div 8) (unat width) y x =
        indices ! (y * unat width + x)) \<and>
     unpack planes (unat width) (unat height) = indices"
proof -
  from convert_to_planar_packed [where m = m and indices = indices and width = width
      and height = height] assms(1,2,3,5)
  obtain planes where p: "convert_to_planar m indices width height = Inr planes"
    "packed_upto indices (unat width * unat height div 8)
       (8 * (unat width * unat height div 8)) planes"
    by blast
  have "unpack_index planes (unat width * unat height div 8) (unat width) y x =
        indices ! (y * unat width + x)" if "y < unat height" "x < unat width" for y x
  proof -
    have "y * unat width + x < unat width * unat height"
      using assms(2) that(2,1) by (rule row_major_split)
    then have "indices ! (y * unat width + x) < 16" using assms(3,4) by simp
    with p(2) assms(2) that(2,1) show ?thesis by (rule unpack_index_packed)
  qed
  moreover have "unpack planes (unat width) (unat height) = indices"
    using p(2) assms(2,3,4) by (rule unpack_packed)
  ultimately show ?thesis using p(1) by blast
qed

theorem planar_round_trip_witness:
  "\<exists>planes. convert_to_planar (\<lambda>n. True) [0, 1, 2, 3, 4, 5, 6, 7, 8, 9, 10, 11, 12, 13, 14, 15] 8 2
       = Inr planes \<and>
     unpack planes 8 2 = [0, 1, 2, 3, 4, 5, 6, 7, 8, 9, 10, 11, 12, 13, 14, 15]"
  using planar_round_trip [of 8 2 "[0, 1, 2, 3, 4, 5, 6, 7, 8, 9, 10, 11, 12, 13, 14, 15]" "\<lambda>n. True"]
  by simp blast

text \<open>
  With \<open>width = height = 65536\<close> the product wraps to 0 in \<^verbatim>\<open>unsigned\<close>: no byte is
  allocated, and the first pixel with a set bit is written outside the buffer. The index
  buffer has \<open>65536 * 65536\<close> entries, all of them 15.
\<close>

theorem planar_round_trip_counterexample:
  "8 dvd unat (65536 :: u32) \<and>
   length (replicate 4294967296 (15 :: u8)) = unat (65536 :: u32) * unat (65536 :: u32) \<and>
   set (replicate 4294967296 (15 :: u8)) = {15} \<and> (15 :: u8) < 16 \<and>
   convert_to_planar (\<lambda>n. True) (replicate 4294967296 15) 65536 65536 = Inl OutOfBounds"
  by (simp add: convert_to_planar_def planar_y_loop.simps planar_x_loop.simps
      planar_plane_loop.simps Let_def)

section \<open>Concrete runs\<close>

lemma replicate_4_bytes: "replicate 4 (0 :: u8) = [0, 0, 0, 0]"
  by (simp add: numeral_eq_Suc)

lemma replicate_8_bytes: "replicate 8 (0 :: u8) = [0, 0, 0, 0, 0, 0, 0, 0]"
  by (simp add: numeral_eq_Suc)

lemma map_to_ega_black: "map_to_ega 0 0 0 = 0"
  by (simp add: map_to_ega_def map_to_ega_loop.simps colour_distance_def ega_palette_def Let_def)

lemma map_to_ega_white: "map_to_ega 255 255 255 = 15"
  by (simp add: map_to_ega_def map_to_ega_loop.simps colour_distance_def ega_palette_def Let_def)

lemma quantize_black_white_row:
  "quantize_y_loop black_white_row 8 1 0 (replicate 8 0) = Inr [0, 15, 0, 15, 0, 15, 0, 15]"
  unfolding replicate_8_bytes black_white_row_def
  by (simp add: quantize_y_loop.simps quantize_x_loop.simps map_to_ega_black
      map_to_ega_white Let_def)

lemma pack_alternating_row:
  "convert_to_planar m [0, 15, 0, 15, 0, 15, 0, 15] 8 1 =
     (if m 4 then Inr [0x55, 0x55, 0x55, 0x55] else Inl AllocFailure)"
  by (simp add: convert_to_planar_def planar_y_loop.simps planar_x_loop.simps
      planar_plane_loop.simps Let_def replicate_4_bytes)

text \<open>
  C4. An 8-by-1 image of alternating black and white pixels quantises to the indices
  0, 15, 0, 15, 0, 15, 0, 15, and these indices are packed into the four bytes
  \<open>0x55, 0x55, 0x55, 0x55\<close>, one per plane (when the four bytes can be allocated).
\<close>

theorem black_white_row_packs_to_55:
  "quantize_y_loop black_white_row 8 1 0 (replicate 8 0) = Inr [0, 15, 0, 15, 0, 15, 0, 15] \<and>
   convert_to_planar m [0, 15, 0, 15, 0, 15, 0, 15] 8 1 =
     (if m 4 then Inr [0x55, 0x55, 0x55, 0x55] else Inl AllocFailure)"
  by (rule conjI [OF quantize_black_white_row pack_alternating_row])

text \<open>
  C5. Each of the 16 palette entries, given to the quantiser as a pixel, is mapped to
  its own index.
\<close>

theorem palette_entries_map_to_themselves:
  "map (\<lambda>p. map_to_ega (p ! 0) (p ! 1) (p ! 2)) ega_palette =
     [0, 1, 2, 3, 4, 5, 6, 7, 8, 9, 10, 11, 12, 13, 14, 15]"
  by (simp add: map_to_ega_def map_to_ega_loop.simps colour_distance_def ega_palette_def Let_def)

section \<open>Only the low four bits of an index are packed\<close>

lemma nibble_bit: "bit (ucast (v :: u8) AND (0x0F :: u32)) p \<longleftrightarrow> p < 4 \<and> bit v p"
proof -
  have "(0x0F :: u32) = mask 4" by (simp add: mask_eq_exp_minus_1)
  then have "bit (ucast v AND (0x0F :: u32)) p \<longleftrightarrow> bit (ucast v AND (mask 4 :: u32)) p"
    by (simp only:)
  also have "\<dots> \<longleftrightarrow> p < 4 \<and> bit v p"
    by (auto simp: bit_and_iff bit_mask_iff bit_ucast_iff)
  finally show ?thesis .
qed

lemma low_bits_of_residue:
  assumes "unat (v :: u8) mod 16 = unat (v' :: u8) mod 16" "p < 4"
  shows "bit v p \<longleftrightarrow> bit v' p"
proof -
  have "take_bit 4 (unat v) = take_bit 4 (unat v')"
    using assms(1) by (simp add: take_bit_eq_mod)
  then have "bit (take_bit 4 (unat v)) p \<longleftrightarrow> bit (take_bit 4 (unat v')) p" by simp
  then have "bit (unat v) p \<longleftrightarrow> bit (unat v') p"
    using assms(2) by (simp add: bit_take_bit_iff)
  moreover have "p < 8" using assms(2) by simp
  ultimately show ?thesis by (simp add: bit_unsigned_iff)
qed

lemma low_nibble_cong:
  assumes "unat (v :: u8) mod 16 = unat (v' :: u8) mod 16"
  shows "(ucast v AND 0x0F :: u32) = ucast v' AND 0x0F"
proof (rule bit_word_eqI)
  fix p
  show "bit (ucast v AND 0x0F :: u32) p \<longleftrightarrow> bit (ucast v' AND 0x0F :: u32) p"
    using low_bits_of_residue [OF assms, of p] by (auto simp only: nibble_bit)
qed

lemma low_nibble_mask: "unat ((v :: u8) AND 0xF) mod 16 = unat v mod 16"
proof -
  have "(0xF :: u8) = mask 4" by (simp add: mask_eq_exp_minus_1)
  then have "v AND 0xF = take_bit 4 v" by (simp only: take_bit_eq_mask)
  then have "unat (v AND 0xF) = take_bit 4 (unat v)" by (simp only: unsigned_take_bit_eq)
  then show ?thesis by (simp add: take_bit_eq_mod)
qed

lemma planar_x_loop_low_bits:
  assumes "length a = length b"
    "\<forall>i<length a. unat (a ! i) mod 16 = unat (b ! i) mod 16"
  shows "planar_x_loop a width ps y x out = planar_x_loop b width ps y x out"
  using assms
proof (induction a width ps y x out rule: planar_x_loop.induct)
  case (1 a width ps y x out)
  show ?case
  proof (cases "x < width \<and> unat (y * width + x) < length a")
    case False
    then show ?thesis using "1.prems"(1)
      by (subst (1 2) planar_x_loop.simps) (auto simp: Let_def)
  next
    case True
    let ?n = "y * width + x"
    have px: "(ucast (a ! unat ?n) AND 0x0F :: u32) = ucast (b ! unat ?n) AND 0x0F"
      using True "1.prems"(2) by (intro low_nibble_cong) simp
    show ?thesis
    proof (cases "planar_plane_loop out ps (ucast (a ! unat ?n) AND 0x0F) (7 - (x AND 7)) (?n div 8) 0")
      case (Inl e)
      then show ?thesis using True "1.prems"(1) px
        by (subst (1 2) planar_x_loop.simps) (simp add: Let_def)
    next
      case (Inr out')
      from True have t1: "x < width" and t2: "unat ?n < length a" by simp_all
      have "planar_x_loop a width ps y (x + 1) out' = planar_x_loop b width ps y (x + 1) out'"
        using "1.IH" [OF t1 refl t2 refl refl refl Inr "1.prems"] .
      then show ?thesis using True "1.prems"(1) px Inr
        by (subst (1 2) planar_x_loop.simps) (simp add: Let_def)
    qed
  qed
qed

lemma planar_y_loop_low_bits:
  assumes "length a = length b"
    "\<forall>i<length a. unat (a ! i) mod 16 = unat (b ! i) mod 16"
  shows "planar_y_loop a width height ps y out = planar_y_loop b width height ps y out"
  using assms
proof (induction a width height ps y out rule: planar_y_loop.induct)
  case (1 a width height ps y out)
  have x: "planar_x_loop a width ps y 0 out = planar_x_loop b width ps y 0 out"
    using "1.prems" by (rule planar_x_loop_low_bits)
  show ?case
  proof (cases "y < height")
    case False
    then show ?thesis by (subst (1 2) planar_y_loop.simps) simp
  next
    case True
    have ya: "planar_y_loop a width height ps y out =
        (case planar_x_loop a width ps y 0 out of Inl e \<Rightarrow> Inl e
         | Inr out' \<Rightarrow> planar_y_loop a width height ps (y + 1) out')"
      using True by (subst planar_y_loop.simps) simp
    have yb: "planar_y_loop b width height ps y out =
        (case planar_x_loop b width ps y 0 out of Inl e \<Rightarrow> Inl e
         | Inr out' \<Rightarrow> planar_y_loop b width height ps (y + 1) out')"
      using True by (subst planar_y_loop.simps) simp
    show ?thesis
    proof (cases "planar_x_loop a width ps y 0 out")
      case (Inl e)
      moreover from x Inl have "planar_x_loop b width ps y 0 out = Inl e" by simp
      ultimately show ?thesis by (simp only: ya yb sum.case)
    next
      case (Inr out')
      have "planar_y_loop a width height ps (y + 1) out' =
          planar_y_loop b width height ps (y + 1) out'"
        using "1.IH" [OF True Inr "1.prems"] .
      moreover from x Inr have "planar_x_loop b width ps y 0 out = Inr out'" by simp
      ultimately show ?thesis using Inr by (simp only: ya yb sum.case)
    qed
  qed
qed

text \<open>
  C8. The output of \<^verbatim>\<open>convert_to_planar\<close> depends only on the low four bits of each
  index: two index buffers of the same length that are entry-wise congruent modulo 16
  give the same result, and masking every index with \<open>0xF\<close> does not change it. This
  holds for every width and height, so in particular for widths that are multiples of 8
  and buffers of length \<open>width * height\<close>.
\<close>

theorem convert_to_planar_low_bits:
  "(length a = length b \<and> (\<forall>i<length a. unat (a ! i) mod 16 = unat (b ! i) mod 16) \<longrightarrow>
      convert_to_planar m a width height = convert_to_planar m b width height) \<and>
   convert_to_planar m indices width height =
     convert_to_planar m (map (\<lambda>v. v AND 0xF) indices) width height"
proof (intro conjI impI)
  assume "length a = length b \<and> (\<forall>i<length a. unat (a ! i) mod 16 = unat (b ! i) mod 16)"
  then show "convert_to_planar m a width height = convert_to_planar m b width height"
    by (simp add: convert_to_planar_def Let_def planar_y_loop_low_bits [of a b])
next
  have "planar_y_loop indices width height ps y out =
      planar_y_loop (map (\<lambda>v. v AND 0xF) indices) width height ps y out" for ps y out
    by (rule planar_y_loop_low_bits) (simp_all add: low_nibble_mask)
  then show "convert_to_planar m indices width height =
     convert_to_planar m (map (\<lambda>v. v AND 0xF) indices) width height"
    by (simp add: convert_to_planar_def Let_def)
qed

theorem convert_to_planar_low_bits_witness:
  "convert_to_planar (\<lambda>n. True) [0x10, 0xFF, 0x20, 0x3F, 0x40, 0x5F, 0x60, 0x7F] 8 1 =
     Inr [0x55, 0x55, 0x55, 0x55]"
proof -
  have "convert_to_planar (\<lambda>n. True) [0x10, 0xFF, 0x20, 0x3F, 0x40, 0x5F, 0x60, 0x7F] 8 1 =
      convert_to_planar (\<lambda>n. True) [0, 15, 0, 15, 0, 15, 0, 15] 8 1"
    using convert_to_planar_low_bits
      [of "[0x10, 0xFF, 0x20, 0x3F, 0x40, 0x5F, 0x60, 0x7F]" "[0, 15, 0, 15, 0, 15, 0, 15]"
        "\<lambda>n. True" 8 1]
    by (simp add: All_less_Suc)
  also have "\<dots> = Inr [0x55, 0x55, 0x55, 0x55]"
    by (simp add: convert_to_planar_def planar_y_loop.simps planar_x_loop.simps
        planar_plane_loop.simps Let_def replicate_4_bytes)
  finally show ?thesis .
qed

section \<open>The quantise loop\<close>

lemma map_to_ega_less_16: "map_to_ega r g b < 16"
  using map_to_ega_nearest [of r g b] by (simp add: word_less_nat_alt)

lemma rgb_offset_bound:
  fixes N c :: u32
  assumes "unat c < 4"
  shows "unat (4 * N + c) < 4 * unat N + 4"
proof -
  have "unat (4 * N + c) \<le> unat (4 * N) + unat c"
    by (simp add: unat_word_ariths)
  moreover have "unat (4 * N) \<le> 4 * unat N"
    by (simp add: unat_word_ariths)
  ultimately show ?thesis using assms by linarith
qed

lemma rgb_offset_mod:
  fixes N c :: u32
  shows "unat (4 * N + c) mod 4 = unat c mod 4"
proof -
  have d: "(4 :: nat) dvd 2 ^ 32" by simp
  have "unat (4 * N + c) mod 4 = (unat (4 * N) + unat c) mod 2 ^ 32 mod 4"
    by (simp add: unat_word_ariths)
  also have "\<dots> = (unat (4 * N) + unat c) mod 4"
    using d by (rule mod_mod_cancel)
  also have "\<dots> = (unat (4 * N) mod 4 + unat c) mod 4"
    by (simp add: mod_add_left_eq)
  also have "unat (4 * N) mod 4 = (4 * unat N) mod 2 ^ 32 mod 4"
    by (simp add: unat_word_ariths)
  also have "\<dots> = (4 * unat N) mod 4"
    using d by (rule mod_mod_cancel)
  finally show ?thesis by simp
qed

lemma quantize_x_loop_result:
  assumes "unat width * unat height < 2 ^ 32"
    "length img = 4 * (unat width * unat height)"
    "length indices = unat width * unat height"
    "y < height" "x \<le> width" "\<forall>v\<in>set indices. v < 16"
  shows "\<exists>indices'. quantize_x_loop img width y x indices = Inr indices' \<and>
     length indices' = length indices \<and> (\<forall>v\<in>set indices'. v < 16)"
  using assms
proof (induction img width y x indices rule: quantize_x_loop.induct)
  case (1 img width y x indices)
  show ?case
  proof (cases "x < width")
    case False
    then show ?thesis using "1.prems"(6)
      by (subst quantize_x_loop.simps) simp
  next
    case True
    let ?n = "y * width + x"
    let ?idx = "4 * ?n"
    have un: "unat ?n = unat y * unat width + unat x"
      using "1.prems"(1,4) True by (rule pixel_offset_unat)
    have lt: "unat ?n < unat width * unat height"
      unfolding un using "1.prems"(1,4) True by (rule pixel_offset_unat)
    have b: "unat (?idx + c) < length img" if "unat c < 4" for c
      using rgb_offset_bound [OF that, of ?n] lt "1.prems"(2) by linarith
    have b0: "unat (?idx + 0) < length img" by (rule b) simp
    have b1: "unat (?idx + 1) < length img" by (rule b) simp
    have b2: "unat (?idx + 2) < length img" by (rule b) simp
    have bi: "unat ?n < length indices" using lt "1.prems"(3) by simp
    let ?v = "map_to_ega (img ! unat (?idx + 0)) (img ! unat (?idx + 1)) (img ! unat (?idx + 2))"
    let ?indices1 = "indices[unat ?n := ?v]"
    have len1: "length ?indices1 = unat width * unat height" using "1.prems"(3) by simp
    have v1: "\<forall>v\<in>set ?indices1. v < 16"
    proof
      fix v assume "v \<in> set ?indices1"
      then have "v \<in> insert ?v (set indices)"
        using set_update_subset_insert [of indices "unat ?n" ?v] by blast
      then show "v < 16" using "1.prems"(6) map_to_ega_less_16 by auto
    qed
    have le: "x + 1 \<le> width" using True by (rule inc_le)
    have c: "unat (?idx + 0) < length img \<and> unat (?idx + 1) < length img \<and>
        unat (?idx + 2) < length img \<and> unat ?n < length indices"
      using b0 b1 b2 bi by simp
    from "1.IH" [OF True refl c refl refl refl "1.prems"(1,2) len1 "1.prems"(4) le v1]
    obtain indices' where o: "quantize_x_loop img width y (x + 1) ?indices1 = Inr indices'"
      "length indices' = length ?indices1" "\<forall>v\<in>set indices'. v < 16"
      by blast
    have "quantize_x_loop img width y x indices = Inr indices'"
      using True c o(1) by (subst quantize_x_loop.simps) (simp add: Let_def)
    with o(2,3) show ?thesis by simp
  qed
qed

lemma quantize_y_loop_result:
  assumes "unat width * unat height < 2 ^ 32"
    "length img = 4 * (unat width * unat height)"
    "length indices = unat width * unat height"
    "\<forall>v\<in>set indices. v < 16"
  shows "\<exists>indices'. quantize_y_loop img width height y indices = Inr indices' \<and>
     length indices' = length indices \<and> (\<forall>v\<in>set indices'. v < 16)"
  using assms
proof (induction img width height y indices rule: quantize_y_loop.induct)
  case (1 img width height y indices)
  show ?case
  proof (cases "y < height")
    case False
    then show ?thesis using "1.prems"(4)
      by (subst quantize_y_loop.simps) simp
  next
    case True
    have z: "(0 :: u32) \<le> width" by simp
    from quantize_x_loop_result [OF "1.prems"(1,2,3) True z "1.prems"(4)]
    obtain indices1 where o1: "quantize_x_loop img width y 0 indices = Inr indices1"
      "length indices1 = length indices" "\<forall>v\<in>set indices1. v < 16"
      by blast
    have len1: "length indices1 = unat width * unat height" using o1(2) "1.prems"(3) by simp
    from "1.IH" [OF True o1(1) "1.prems"(1,2) len1 o1(3)]
    obtain indices' where o: "quantize_y_loop img width height (y + 1) indices1 = Inr indices'"
      "length indices' = length indices1" "\<forall>v\<in>set indices'. v < 16"
      by blast
    have "quantize_y_loop img width height y indices = Inr indices'"
      using True o1(1) o(1) by (subst quantize_y_loop.simps) simp
    with o(2,3) o1(2) show ?thesis by simp
  qed
qed

lemma quantize_x_loop_alpha:
  assumes "length img' = length img"
    "\<forall>i<length img. i mod 4 \<noteq> 3 \<longrightarrow> img' ! i = img ! i"
  shows "quantize_x_loop img' width y x indices = quantize_x_loop img width y x indices"
  using assms
proof (induction img width y x indices rule: quantize_x_loop.induct)
  case (1 img width y x indices)
  let ?n = "y * width + x"
  let ?idx = "4 * ?n"
  let ?c = "unat (?idx + 0) < length img \<and> unat (?idx + 1) < length img \<and>
        unat (?idx + 2) < length img \<and> unat ?n < length indices"
  show ?case
  proof (cases "x < width \<and> ?c")
    case False
    then show ?thesis using "1.prems"(1)
      by (subst (1 2) quantize_x_loop.simps) (auto simp: Let_def)
  next
    case True
    then have t: "x < width" and c: ?c by simp_all
    have rd: "img' ! unat (?idx + k) = img ! unat (?idx + k)"
      if "unat k mod 4 \<noteq> 3" "unat (?idx + k) < length img" for k
      using "1.prems"(2) that rgb_offset_mod [of ?n k] by simp
    have r0: "img' ! unat (?idx + 0) = img ! unat (?idx + 0)" using c by (intro rd) simp_all
    have r1: "img' ! unat (?idx + 1) = img ! unat (?idx + 1)" using c by (intro rd) simp_all
    have r2: "img' ! unat (?idx + 2) = img ! unat (?idx + 2)" using c by (intro rd) simp_all
    let ?v = "map_to_ega (img ! unat (?idx + 0)) (img ! unat (?idx + 1)) (img ! unat (?idx + 2))"
    have ih: "quantize_x_loop img' width y (x + 1) (indices[unat ?n := ?v]) =
        quantize_x_loop img width y (x + 1) (indices[unat ?n := ?v])"
      using "1.IH" [OF t refl c refl refl refl "1.prems"] .
    have a: "quantize_x_loop img width y x indices =
        quantize_x_loop img width y (x + 1) (indices[unat ?n := ?v])"
      using t c by (subst quantize_x_loop.simps) (simp add: Let_def)
    have c': "unat (?idx + 0) < length img' \<and> unat (?idx + 1) < length img' \<and>
        unat (?idx + 2) < length img' \<and> unat ?n < length indices"
      using c "1.prems"(1) by simp
    have b: "quantize_x_loop img' width y x indices =
        quantize_x_loop img' width y (x + 1) (indices[unat ?n := ?v])"
      using t c' r0 r1 r2 by (subst quantize_x_loop.simps) (simp add: Let_def)
    show ?thesis by (simp only: a b ih)
  qed
qed

lemma quantize_y_loop_alpha:
  assumes "length img' = length img"
    "\<forall>i<length img. i mod 4 \<noteq> 3 \<longrightarrow> img' ! i = img ! i"
  shows "quantize_y_loop img' width height y indices = quantize_y_loop img width height y indices"
  using assms
proof (induction img width height y indices rule: quantize_y_loop.induct)
  case (1 img width height y indices)
  have x: "quantize_x_loop img' width y 0 indices = quantize_x_loop img width y 0 indices"
    using "1.prems" by (rule quantize_x_loop_alpha)
  show ?case
  proof (cases "y < height")
    case False
    then show ?thesis by (subst (1 2) quantize_y_loop.simps) simp
  next
    case True
    have ya: "quantize_y_loop img width height y indices =
        (case quantize_x_loop img width y 0 indices of Inl e \<Rightarrow> Inl e
         | Inr indices' \<Rightarrow> quantize_y_loop img width height (y + 1) indices')"
      using True by (subst quantize_y_loop.simps) simp
    have yb: "quantize_y_loop img' width height y indices =
        (case quantize_x_loop img' width y 0 indices of Inl e \<Rightarrow> Inl e
         | Inr indices' \<Rightarrow> quantize_y_loop img' width height (y + 1) indices')"
      using True by (subst quantize_y_loop.simps) simp
    show ?thesis
    proof (cases "quantize_x_loop img width y 0 indices")
      case (Inl e)
      moreover from x Inl have "quantize_x_loop img' width y 0 indices = Inl e" by simp
      ultimately show ?thesis by (simp only: ya yb sum.case)
    next
      case (Inr indices1)
      have "quantize_y_loop img' width height (y + 1) indices1 =
          quantize_y_loop img width height (y + 1) indices1"
        using "1.IH" [OF True Inr "1.prems"] .
      moreover from x Inr have "quantize_x_loop img' width y 0 indices = Inr indices1" by simp
      ultimately show ?thesis using Inr by (simp only: ya yb sum.case)
    qed
  qed
qed

text \<open>
  What the quantise loop leaves in the index vector: entry \<open>k\<close> is the value stored for
  position \<open>k\<close>, and that is the quantised pixel \<open>k\<close> of the image as long as
  \<open>4 * k + 2\<close> fits an \<^verbatim>\<open>unsigned\<close>.
\<close>

lemma word_of_unat: "word_of_nat (unat (p :: u32)) = p"
  by simp

lemma quantize_x_loop_pixels:
  assumes "unat width * unat height < 2 ^ 32"
    "length img = 4 * (unat width * unat height)"
    "length indices = unat width * unat height"
    "y < height" "x \<le> width"
    "\<forall>k<unat y * unat width + unat x. indices ! k = stored_index img (word_of_nat k)"
  shows "\<exists>indices'. quantize_x_loop img width y x indices = Inr indices' \<and>
     length indices' = length indices \<and>
     (\<forall>k<unat y * unat width + unat width. indices' ! k = stored_index img (word_of_nat k))"
  using assms
proof (induction img width y x indices rule: quantize_x_loop.induct)
  case (1 img width y x indices)
  show ?case
  proof (cases "x < width")
    case False
    with "1.prems"(5) have "x = width" by simp
    then show ?thesis using "1.prems"(6)
      by (subst quantize_x_loop.simps) simp
  next
    case True
    let ?n = "y * width + x"
    let ?idx = "4 * ?n"
    have un: "unat ?n = unat y * unat width + unat x"
      using "1.prems"(1,4) True by (rule pixel_offset_unat)
    have lt: "unat ?n < unat width * unat height"
      unfolding un using "1.prems"(1,4) True by (rule pixel_offset_unat)
    have b: "unat (?idx + c) < length img" if "unat c < 4" for c
      using rgb_offset_bound [OF that, of ?n] lt "1.prems"(2) by linarith
    have b0: "unat (?idx + 0) < length img" by (rule b) simp
    have b1: "unat (?idx + 1) < length img" by (rule b) simp
    have b2: "unat (?idx + 2) < length img" by (rule b) simp
    have bi: "unat ?n < length indices" using lt "1.prems"(3) by simp
    let ?v = "map_to_ega (img ! unat (?idx + 0)) (img ! unat (?idx + 1)) (img ! unat (?idx + 2))"
    let ?indices1 = "indices[unat ?n := ?v]"
    have len1: "length ?indices1 = unat width * unat height" using "1.prems"(3) by simp
    have v: "?v = stored_index img (word_of_nat (unat ?n))"
      by (simp only: word_of_unat stored_index_def)
    have s: "unat (x + 1) = Suc (unat x)" using True by (rule word_succ_below)
    have inv1: "\<forall>k<unat y * unat width + unat (x + 1).
        ?indices1 ! k = stored_index img (word_of_nat k)"
    proof (intro allI impI)
      fix k
      assume "k < unat y * unat width + unat (x + 1)"
      then have k: "k < Suc (unat ?n)" by (simp add: s un)
      show "?indices1 ! k = stored_index img (word_of_nat k)"
      proof (cases "k = unat ?n")
        case True
        then show ?thesis using bi v by simp
      next
        case False
        with k have "k < unat ?n" by simp
        then have "k < unat y * unat width + unat x" by (simp only: un)
        then have "indices ! k = stored_index img (word_of_nat k)" using "1.prems"(6) by blast
        moreover have "?indices1 ! k = indices ! k" using False by simp
        ultimately show ?thesis by (simp only:)
      qed
    qed
    have le: "x + 1 \<le> width" using True by (rule inc_le)
    have c: "unat (?idx + 0) < length img \<and> unat (?idx + 1) < length img \<and>
        unat (?idx + 2) < length img \<and> unat ?n < length indices"
      using b0 b1 b2 bi by simp
    from "1.IH" [OF True refl c refl refl refl "1.prems"(1,2) len1 "1.prems"(4) le inv1]
    obtain indices' where o: "quantize_x_loop img width y (x + 1) ?indices1 = Inr indices'"
      "length indices' = length ?indices1"
      "\<forall>k<unat y * unat width + unat width. indices' ! k = stored_index img (word_of_nat k)"
      by blast
    have "quantize_x_loop img width y x indices = Inr indices'"
      using True c o(1) by (subst quantize_x_loop.simps) (simp add: Let_def)
    with o(2,3) show ?thesis by simp
  qed
qed

lemma quantize_y_loop_pixels:
  assumes "unat width * unat height < 2 ^ 32"
    "length img = 4 * (unat width * unat height)"
    "length indices = unat width * unat height"
    "y \<le> height"
    "\<forall>k<unat y * unat width. indices ! k = stored_index img (word_of_nat k)"
  shows "\<exists>indices'. quantize_y_loop img width height y indices = Inr indices' \<and>
     length indices' = length indices \<and>
     (\<forall>k<unat height * unat width. indices' ! k = stored_index img (word_of_nat k))"
  using assms
proof (induction img width height y indices rule: quantize_y_loop.induct)
  case (1 img width height y indices)
  show ?case
  proof (cases "y < height")
    case False
    with "1.prems"(4) have "y = height" by simp
    then show ?thesis using "1.prems"(5)
      by (subst quantize_y_loop.simps) simp
  next
    case True
    have z: "(0 :: u32) \<le> width" by simp
    have inv: "\<forall>k<unat y * unat width + unat (0 :: u32).
        indices ! k = stored_index img (word_of_nat k)"
      using "1.prems"(5) by simp
    from quantize_x_loop_pixels [OF "1.prems"(1,2,3) True z inv]
    obtain indices1 where o1: "quantize_x_loop img width y 0 indices = Inr indices1"
      "length indices1 = length indices"
      "\<forall>k<unat y * unat width + unat width. indices1 ! k = stored_index img (word_of_nat k)"
      by blast
    have len1: "length indices1 = unat width * unat height" using o1(2) "1.prems"(3) by simp
    have s: "unat (y + 1) = Suc (unat y)" using True by (rule word_succ_below)
    have le: "y + 1 \<le> height" using True by (rule inc_le)
    have "unat (y + 1) * unat width = unat y * unat width + unat width" by (simp add: s)
    then have inv1: "\<forall>k<unat (y + 1) * unat width.
        indices1 ! k = stored_index img (word_of_nat k)"
      using o1(3) by (simp only:)
    from "1.IH" [OF True o1(1) "1.prems"(1,2) len1 le inv1]
    obtain indices' where o: "quantize_y_loop img width height (y + 1) indices1 = Inr indices'"
      "length indices' = length indices1"
      "\<forall>k<unat height * unat width. indices' ! k = stored_index img (word_of_nat k)"
      by blast
    have "quantize_y_loop img width height y indices = Inr indices'"
      using True o1(1) o(1) by (subst quantize_y_loop.simps) simp
    with o(2,3) o1(2) show ?thesis by simp
  qed
qed

lemma stored_index_exact:
  assumes "k < 2 ^ 30"
  shows "stored_index img (word_of_nat k) =
     map_to_ega (img ! (4 * k)) (img ! (4 * k + 1)) (img ! (4 * k + 2))"
proof -
  have k4: "4 * k + 3 < 2 ^ 32" using assms by simp
  have a: "unat (4 * (word_of_nat k :: u32)) = 4 * k"
    using k4 by (simp add: unat_word_ariths unat_of_nat)
  have "unat (4 * (word_of_nat k :: u32) + c) = 4 * k + unat c" if "unat c < 4" for c
  proof -
    have "unat (4 * (word_of_nat k :: u32) + c) =
        (unat (4 * (word_of_nat k :: u32)) + unat c) mod 2 ^ LENGTH(32)"
      by (rule unat_word_ariths(1))
    also have "\<dots> = (4 * k + unat c) mod 2 ^ LENGTH(32)" by (simp only: a)
    also have "\<dots> = 4 * k + unat c" using k4 that by simp
    finally show ?thesis .
  qed
  from this [of 0] this [of 1] this [of 2] show ?thesis
    by (simp add: stored_index_def)
qed

lemma quantize_loop_stored:
  assumes "unat width * unat height < 2 ^ 32"
    "length img = 4 * (unat width * unat height)"
  shows "\<exists>indices.
     quantize_y_loop img width height 0 (replicate (unat width * unat height) 0) = Inr indices \<and>
     length indices = unat width * unat height \<and>
     (\<forall>k<unat width * unat height. indices ! k = stored_index img (word_of_nat k))"
proof -
  have z: "(0 :: u32) \<le> height" by simp
  have l: "length (replicate (unat width * unat height) (0 :: u8)) = unat width * unat height"
    by simp
  have inv: "\<forall>k<unat (0 :: u32) * unat width.
      replicate (unat width * unat height) (0 :: u8) ! k = stored_index img (word_of_nat k)"
    by simp
  from quantize_y_loop_pixels [OF assms l z inv]
  show ?thesis by (simp add: mult.commute)
qed

lemma quantize_loop_image:
  assumes "unat width * unat height \<le> 2 ^ 30"
    "length img = 4 * (unat width * unat height)"
  shows "quantize_y_loop img width height 0 (replicate (unat width * unat height) 0) =
     Inr (quantized_image img (unat width * unat height))"
proof -
  have lt: "unat width * unat height < 2 ^ 32" using assms(1) by simp
  from quantize_loop_stored [OF lt assms(2)]
  obtain indices where
    q: "quantize_y_loop img width height 0 (replicate (unat width * unat height) 0) = Inr indices"
    and len: "length indices = unat width * unat height"
    and px: "\<forall>k<unat width * unat height. indices ! k = stored_index img (word_of_nat k)"
    by blast
  have "indices = quantized_image img (unat width * unat height)"
  proof (rule nth_equalityI)
    show "length indices = length (quantized_image img (unat width * unat height))"
      using len by (simp add: quantized_image_def)
  next
    fix k
    assume "k < length indices"
    then have k: "k < unat width * unat height" using len by simp
    then have "k < 2 ^ 30" using assms(1) by simp
    then have "stored_index img (word_of_nat k) =
        map_to_ega (img ! (4 * k)) (img ! (4 * k + 1)) (img ! (4 * k + 2))"
      by (rule stored_index_exact)
    then show "indices ! k = quantized_image img (unat width * unat height) ! k"
      using px k by (simp add: quantized_image_def)
  qed
  with q show ?thesis by simp
qed

section \<open>Runs of the program\<close>

lemma width_check: "(width :: u32) mod 8 \<noteq> 0 \<longleftrightarrow> \<not> 8 dvd unat width"
proof -
  have "unat (width mod 8) = unat width mod 8" by (simp add: unat_mod)
  then have "width mod 8 = 0 \<longleftrightarrow> unat width mod 8 = 0"
    by (metis unat_eq_0)
  then show ?thesis by (simp add: dvd_eq_mod_eq_0)
qed

text \<open>
  C6. When the decoded width is not a multiple of 8, the run ends with the width
  message on the error stream and exit code 1, and the file system is as before the
  run: no output file is created. The outcome does not depend on the decoded pixels at
  all, which are looked at only after this check.
\<close>

theorem main_rejects_width:
  assumes "3 \<le> length (argv e)" "load_file e (argv e ! 1) = (0, png)"
    "decode e png = (0, img, width, height)" "\<not> 8 dvd unat width"
  shows "main e = Inr \<lparr>status = Exit 1, stderr = [WidthError], stdout = [], fs = files e\<rparr>"
  using assms by (simp add: main_def failed_def width_check)

theorem main_rejects_width_witness:
  "main \<lparr>argv = [''egaify'', ''in.png'', ''out.raw''], load_file = (\<lambda>p. (0, [])),
         decode = (\<lambda>p. (0, [], 321, 200)), vector_ok = (\<lambda>n. True), malloc_ok = (\<lambda>n. True),
         fopen_ok = (\<lambda>p. True), fwrite_count = (\<lambda>n. n), files = Map.empty\<rparr> =
   Inr \<lparr>status = Exit 1, stderr = [WidthError], stdout = [], fs = Map.empty\<rparr>"
  using main_rejects_width [of
      "\<lparr>argv = [''egaify'', ''in.png'', ''out.raw''], load_file = (\<lambda>p. (0, [])),
         decode = (\<lambda>p. (0, [], 321, 200)), vector_ok = (\<lambda>n. True), malloc_ok = (\<lambda>n. True),
         fopen_ok = (\<lambda>p. True), fwrite_count = (\<lambda>n. n), files = Map.empty\<rparr>"
      "[]" "[]" 321 200]
  by simp

text \<open>
  What a complete run writes, when the pixel count fits an \<^verbatim>\<open>unsigned\<close> and every
  allocation and file operation succeeds.
\<close>

lemma main_complete_run:
  assumes "3 \<le> length (argv e)" "load_file e (argv e ! 1) = (0, png)"
    "decode e png = (0, img, width, height)" "8 dvd unat width"
    "length img = 4 * (unat width * unat height)"
    "unat width * unat height < 2 ^ 32"
    "vector_ok e (unat width * unat height)"
    "malloc_ok e (unat width * unat height div 8 * 4)"
    "fopen_ok e (argv e ! 2)"
    "unat width * unat height div 8 * 4 \<le> fwrite_count e (unat width * unat height div 8 * 4)"
  shows "\<exists>indices.
     quantize_y_loop img width height 0 (replicate (unat width * unat height) 0) = Inr indices \<and>
     length indices = unat width * unat height \<and>
     main e = Inr \<lparr>status = Exit 0, stderr = [],
       stdout = [Wrote (unat width * unat height div 8 * 4) (argv e ! 2) width height],
       fs = (files e)(argv e ! 2 \<mapsto> planar_layout indices (unat width * unat height div 8))\<rparr>"
proof -
  let ?n = "unat width * unat height"
  have u: "unat (width * height) = ?n" "unat ((width * height) div 8) = ?n div 8"
    using assms(6) by (rule plane_size_unat)+
  have z: "\<forall>v\<in>set (replicate ?n (0 :: u8)). v < 16" by simp
  from quantize_y_loop_result [OF assms(6,5) _ z, of 0]
  obtain indices where q: "quantize_y_loop img width height 0 (replicate ?n 0) = Inr indices"
    "length indices = ?n"
    by auto
  have p: "convert_to_planar (malloc_ok e) indices width height =
      Inr (planar_layout indices (?n div 8))"
    using assms(6,4) q(2) assms(8) by (rule convert_to_planar_layout)
  have w: "width mod 8 = 0" using assms(4) width_check [of width] by blast
  have t: "take (fwrite_count e (?n div 8 * 4)) (planar_layout indices (?n div 8)) =
      planar_layout indices (?n div 8)"
    using assms(10) by (simp add: length_planar_layout mult.commute)
  have "main e = Inr \<lparr>status = Exit 0, stderr = [],
       stdout = [Wrote (?n div 8 * 4) (argv e ! 2) width height],
       fs = (files e)(argv e ! 2 \<mapsto> planar_layout indices (?n div 8))\<rparr>"
    using assms(1,2,3,7,9) w
    by (simp add: main_def u q(1) p t Let_def)
  with q show ?thesis by blast
qed

text \<open>
  C3 (amended). For a decoded image (four bytes per pixel) whose width is a multiple
  of 8 and whose pixel count \<open>width * height\<close> is at most \<open>2 ^ 30\<close> (so that the byte
  position \<open>4 * (y * width + x)\<close> of every pixel fits an \<^verbatim>\<open>unsigned\<close>), on a run where
  the allocations, the opening of the output file and the write succeed, the output
  file holds exactly \<open>4 * (width * height div 8)\<close> bytes: the \<open>width * height div 8\<close>
  bytes of plane 0, then those of plane 1, plane 2 and plane 3 of the image's quantised
  pixels, and nothing else.
\<close>

theorem main_writes_four_planes:
  assumes "3 \<le> length (argv e)" "load_file e (argv e ! 1) = (0, png)"
    "decode e png = (0, img, width, height)" "8 dvd unat width"
    "length img = 4 * (unat width * unat height)"
    "unat width * unat height \<le> 2 ^ 30"
    "vector_ok e (unat width * unat height)"
    "malloc_ok e (unat width * unat height div 8 * 4)"
    "fopen_ok e (argv e ! 2)"
    "unat width * unat height div 8 * 4 \<le> fwrite_count e (unat width * unat height div 8 * 4)"
  shows "\<exists>outc written.
     main e = Inr outc \<and> status outc = Exit 0 \<and> fs outc (argv e ! 2) = Some written \<and>
     length written = 4 * (unat width * unat height div 8) \<and>
     written =
       plane_bytes (quantized_image img (unat width * unat height))
         (unat width * unat height div 8) 0 @
       plane_bytes (quantized_image img (unat width * unat height))
         (unat width * unat height div 8) 1 @
       plane_bytes (quantized_image img (unat width * unat height))
         (unat width * unat height div 8) 2 @
       plane_bytes (quantized_image img (unat width * unat height))
         (unat width * unat height div 8) 3 \<and>
     (\<forall>p<4. length (plane_bytes (quantized_image img (unat width * unat height))
                 (unat width * unat height div 8) p) =
        unat width * unat height div 8)"
proof -
  let ?ps = "unat width * unat height div 8"
  let ?ix = "quantized_image img (unat width * unat height)"
  have lt: "unat width * unat height < 2 ^ 32" using assms(6) by simp
  from main_complete_run [OF assms(1,2,3,4,5) lt assms(7,8,9,10)]
  obtain indices where
    q: "quantize_y_loop img width height 0 (replicate (unat width * unat height) 0) = Inr indices"
    and m: "main e = Inr \<lparr>status = Exit 0, stderr = [],
       stdout = [Wrote (?ps * 4) (argv e ! 2) width height],
       fs = (files e)(argv e ! 2 \<mapsto> planar_layout indices ?ps)\<rparr>"
    by blast
  have "indices = ?ix" using q quantize_loop_image [OF assms(6,5)] by simp
  with m have m': "main e = Inr \<lparr>status = Exit 0, stderr = [],
       stdout = [Wrote (?ps * 4) (argv e ! 2) width height],
       fs = (files e)(argv e ! 2 \<mapsto> planar_layout ?ix ?ps)\<rparr>"
    by simp
  let ?outc = "\<lparr>status = Exit 0, stderr = [],
       stdout = [Wrote (?ps * 4) (argv e ! 2) width height],
       fs = (files e)(argv e ! 2 \<mapsto> planar_layout ?ix ?ps)\<rparr>"
  show ?thesis
  proof (intro exI conjI)
    show "main e = Inr ?outc" by (rule m')
    show "status ?outc = Exit 0" by simp
    show "fs ?outc (argv e ! 2) = Some (planar_layout ?ix ?ps)" by simp
    show "length (planar_layout ?ix ?ps) = 4 * ?ps" by (rule length_planar_layout)
    show "planar_layout ?ix ?ps =
        plane_bytes ?ix ?ps 0 @ plane_bytes ?ix ?ps 1 @
        plane_bytes ?ix ?ps 2 @ plane_bytes ?ix ?ps 3"
      by (simp add: planar_layout_def)
    show "\<forall>p<4. length (plane_bytes ?ix ?ps p) = ?ps" by (simp add: plane_bytes_def)
  qed
qed

theorem main_writes_four_planes_witness:
  "\<exists>outc written.
     main (run_with black_white_row 8 1 (\<lambda>n. n)) = Inr outc \<and> status outc = Exit 0 \<and>
     fs outc ''out.raw'' = Some written \<and> length written = 4 \<and>
     written = plane_bytes (quantized_image black_white_row 8) 1 0 @
               plane_bytes (quantized_image black_white_row 8) 1 1 @
               plane_bytes (quantized_image black_white_row 8) 1 2 @
               plane_bytes (quantized_image black_white_row 8) 1 3 \<and>
     (\<forall>p<4. length (plane_bytes (quantized_image black_white_row 8) 1 p) = 1)"
  using main_writes_four_planes [of "run_with black_white_row 8 1 (\<lambda>n. n)" "[]"
      black_white_row 8 1]
  by (simp add: run_with_def black_white_row_def)

text \<open>
  A 65536-by-65536 image: \<^verbatim>\<open>width * height\<close> wraps to 0, the index vector is empty and
  the first store into it is outside the vector, so no file of \<open>2 ^ 31\<close> bytes is written.
\<close>

theorem main_writes_four_planes_counterexample:
  "8 dvd unat (65536 :: u32) \<and>
   length (replicate 17179869184 (0 :: u8)) = 4 * (unat (65536 :: u32) * unat (65536 :: u32)) \<and>
   main (run_with (replicate 17179869184 0) 65536 65536 (\<lambda>n. n)) = Inl OutOfBounds"
  by (simp add: main_def run_with_def quantize_y_loop.simps quantize_x_loop.simps Let_def)

lemma planar_layout_first_plane:
  assumes "k < ps"
  shows "bit (planar_layout indices ps ! k) 7 \<longleftrightarrow> bit (indices ! (8 * k)) 0"
proof -
  have "planar_layout indices ps ! k = plane_byte indices 0 k"
    using assms by (simp add: planar_layout_def plane_bytes_def nth_append)
  then show ?thesis by (simp add: plane_byte_bit)
qed

text \<open>
  Above \<open>2 ^ 30\<close> pixels the file is written but is not the image's: in the
  65536-by-16385 image the pixel at position \<open>2 ^ 30\<close> is black, the program reads its
  bytes at \<^verbatim>\<open>idx\<close> = 0, where the white first pixel is, stores index 15 for it, and the
  byte for this pixel in plane 0 has its top bit set.
\<close>

lemma main_wrapped_pixel:
  "\<exists>indices.
     main (run_with wrap_image 65536 16385 (\<lambda>n. n)) =
       Inr \<lparr>status = Exit 0, stderr = [],
            stdout = [Wrote 536903680 ''out.raw'' 65536 16385],
            fs = [''out.raw'' \<mapsto> planar_layout indices 134225920]\<rparr> \<and>
     indices ! 1073741824 = 15 \<and>
     quantized_image wrap_image 1073807360 ! 1073741824 = 0 \<and>
     planar_layout indices 134225920 \<noteq>
       planar_layout (quantized_image wrap_image 1073807360) 134225920"
proof -
  let ?e = "run_with wrap_image 65536 16385 (\<lambda>n. n)"
  have lt: "unat (65536 :: u32) * unat (16385 :: u32) < 2 ^ 32" by simp
  have len: "length wrap_image = 4 * (unat (65536 :: u32) * unat (16385 :: u32))"
    by (simp add: wrap_image_def)
  have "\<exists>indices.
     quantize_y_loop wrap_image 65536 16385 0
       (replicate (unat (65536 :: u32) * unat (16385 :: u32)) 0) = Inr indices \<and>
     length indices = unat (65536 :: u32) * unat (16385 :: u32) \<and>
     main ?e = Inr \<lparr>status = Exit 0, stderr = [],
       stdout = [Wrote (unat (65536 :: u32) * unat (16385 :: u32) div 8 * 4) (argv ?e ! 2)
          65536 16385],
       fs = (files ?e)(argv ?e ! 2 \<mapsto>
          planar_layout indices (unat (65536 :: u32) * unat (16385 :: u32) div 8))\<rparr>"
    by (rule main_complete_run [where png = "[]"]) (simp_all add: run_with_def len)
  then obtain indices where
    q: "quantize_y_loop wrap_image 65536 16385 0 (replicate 1073807360 0) = Inr indices"
    and m: "main ?e = Inr \<lparr>status = Exit 0, stderr = [],
            stdout = [Wrote 536903680 ''out.raw'' 65536 16385],
            fs = [''out.raw'' \<mapsto> planar_layout indices 134225920]\<rparr>"
    by (auto simp: run_with_def)
  from quantize_loop_stored [OF lt len] q
  have px: "\<forall>k<1073807360. indices ! k = stored_index wrap_image (word_of_nat k)"
    by simp
  have "indices ! 1073741824 = stored_index wrap_image (word_of_nat 1073741824)"
    using px by simp
  also have "\<dots> = 15"
    by (simp add: stored_index_def wrap_image_def map_to_ega_white)
  finally have a: "indices ! 1073741824 = 15" .
  have b: "quantized_image wrap_image 1073807360 ! 1073741824 = 0"
    by (simp add: quantized_image_def wrap_image_def nth_append map_to_ega_black)
  have "bit (planar_layout indices 134225920 ! 134217728) 7"
    using planar_layout_first_plane [of 134217728 134225920 indices] a by simp
  moreover have "\<not> bit (planar_layout (quantized_image wrap_image 1073807360) 134225920
      ! 134217728) 7"
    using planar_layout_first_plane [of 134217728 134225920
        "quantized_image wrap_image 1073807360"] b by simp
  ultimately have "planar_layout indices 134225920 \<noteq>
       planar_layout (quantized_image wrap_image 1073807360) 134225920"
    by auto
  with m a b show ?thesis by blast
qed

section \<open>Failure paths\<close>

text \<open>
  Every run that ends with a status other than 0 leaves the file system as it was, and
  every run that ends with exit code 1 has written a message to the error stream.
\<close>

lemma main_failure_paths:
  assumes "main e = Inr outc" "status outc \<noteq> Exit 0"
  shows "fs outc = files e \<and> (status outc = Exit 1 \<longrightarrow> stderr outc \<noteq> [])"
  using assms
  by (auto simp: main_def failed_def Let_def
      split: if_splits prod.splits sum.splits error.splits)

lemma main_black_white_run:
  "main (run_with black_white_row 8 1 written) =
     Inr \<lparr>status = Exit 0, stderr = [], stdout = [Wrote 4 ''out.raw'' 8 1],
          fs = [''out.raw'' \<mapsto> take (written 4) [0x55, 0x55, 0x55, 0x55]]\<rparr>"
  by (simp add: main_def run_with_def quantize_black_white_row pack_alternating_row Let_def)

text \<open>
  C7. Every failure path is to write a diagnostic, end with a non-zero status and
  leave no partial output file. A failed write does none of this. In the run below the
  output file is opened and only 2 of the 4 bytes reach it: the program prints no
  diagnostic, reports 4 bytes written, exits with status 0 and leaves the 2-byte file.
\<close>

theorem main_short_write_unreported:
  "main (run_with black_white_row 8 1 (\<lambda>n. 2)) =
     Inr \<lparr>status = Exit 0, stderr = [], stdout = [Wrote 4 ''out.raw'' 8 1],
          fs = [''out.raw'' \<mapsto> [0x55, 0x55]]\<rparr>"
  using main_black_white_run [of "\<lambda>n. 2"] by (simp add: numeral_eq_Suc)

section \<open>Alpha is ignored\<close>

text \<open>
  C9. Two decoded RGBA images of the same width, height and length that agree on the
  red, green and blue byte of every pixel (every position that is not 3 modulo 4) lead
  to the same result of the run, whatever their alpha bytes: the same output file,
  messages and status.
\<close>

theorem main_ignores_alpha:
  assumes "decode e (snd (load_file e (argv e ! 1))) = (err, img, width, height)"
    "length img' = length img" "\<forall>i<length img. i mod 4 \<noteq> 3 \<longrightarrow> img' ! i = img ! i"
  shows "main (e\<lparr>decode := (\<lambda>p. (err, img', width, height))\<rparr>) = main e"
proof -
  obtain lerr png where l: "load_file e (argv e ! 1) = (lerr, png)"
    by (cases "load_file e (argv e ! 1)")
  have d: "decode e png = (err, img, width, height)" using assms(1) l by simp
  have q: "quantize_y_loop img' width height 0 ix = quantize_y_loop img width height 0 ix" for ix
    using assms(2,3) by (rule quantize_y_loop_alpha)
  show ?thesis
    by (simp add: main_def l d q failed_def Let_def del: One_nat_def
        split: sum.splits error.splits)
qed

theorem main_ignores_alpha_witness:
  "main (run_with [0, 0, 0, 7, 255, 255, 255, 0, 0, 0, 0, 128, 255, 255, 255, 1,
                   0, 0, 0, 0, 255, 255, 255, 9, 0, 0, 0, 255, 255, 255, 255, 77] 8 1 (\<lambda>n. n)) =
   main (run_with black_white_row 8 1 (\<lambda>n. n))"
proof -
  let ?img' = "[0, 0, 0, 7, 255, 255, 255, 0, 0, 0, 0, 128, 255, 255, 255, 1,
                0, 0, 0, 0, 255, 255, 255, 9, 0, 0, 0, 255, 255, 255, 255, 77] :: u8 list"
  have "(run_with black_white_row 8 1 (\<lambda>n. n))\<lparr>decode := (\<lambda>p. (0, ?img', 8, 1))\<rparr> =
      run_with ?img' 8 1 (\<lambda>n. n)"
    by (simp add: run_with_def)
  then show ?thesis
    using main_ignores_alpha [of "run_with black_white_row 8 1 (\<lambda>n. n)" 0 black_white_row 8 1 ?img']
    by (simp add: run_with_def black_white_row_def All_less_Suc)
qed

section \<open>Buffer accesses\<close>

text \<open>
  C10 (amended). When the width is a multiple of 8, the pixel count \<open>width * height\<close>
  is below \<open>2 ^ 32\<close>, the decoded buffer has \<open>4 * width * height\<close> bytes and the index
  buffer given to the packer has \<open>width * height\<close> entries, no access of the quantise
  loop or of \<^verbatim>\<open>convert_to_planar\<close> leaves its buffer: the quantise loop ends with a
  vector of \<open>width * height\<close> indices, the packer does not end with \<open>OutOfBounds\<close>, and
  \<^verbatim>\<open>map_to_ega\<close> returns a value below 16.
\<close>

theorem accesses_in_bounds:
  assumes "8 dvd unat width" "unat width * unat height < 2 ^ 32"
    "length img = 4 * (unat width * unat height)"
    "length indices = unat width * unat height"
  shows "(\<exists>ix. quantize_y_loop img width height 0 (replicate (unat (width * height)) 0) = Inr ix \<and>
            length ix = unat width * unat height) \<and>
     convert_to_planar m indices width height \<noteq> Inl OutOfBounds \<and>
     unat (map_to_ega r g b) < 16"
proof (intro conjI)
  have u: "unat (width * height) = unat width * unat height"
    using assms(2) by (rule plane_size_unat)
  have z: "\<forall>v\<in>set (replicate (unat width * unat height) (0 :: u8)). v < 16" by simp
  from quantize_y_loop_result [OF assms(2,3) _ z, of 0]
  show "\<exists>ix. quantize_y_loop img width height 0 (replicate (unat (width * height)) 0) = Inr ix \<and>
            length ix = unat width * unat height"
    unfolding u by auto
next
  show "convert_to_planar m indices width height \<noteq> Inl OutOfBounds"
  proof (cases "m (unat width * unat height div 8 * 4)")
    case True
    with assms(2,1,4) have "convert_to_planar m indices width height =
        Inr (planar_layout indices (unat width * unat height div 8))"
      by (rule convert_to_planar_layout)
    then show ?thesis by simp
  next
    case False
    have "unat ((width * height) div 8) = unat width * unat height div 8"
      using assms(2) by (rule plane_size_unat)
    with False show ?thesis by (simp add: convert_to_planar_def)
  qed
next
  show "unat (map_to_ega r g b) < 16" using map_to_ega_nearest [of r g b] by simp
qed

theorem accesses_in_bounds_witness:
  "(\<exists>ix. quantize_y_loop black_white_row 8 1 0 (replicate (unat (8 * 1 :: u32)) 0) = Inr ix \<and>
          length ix = 8) \<and>
   convert_to_planar (\<lambda>n. True) [1, 2, 3, 4, 5, 6, 7, 8] 8 1 \<noteq> Inl OutOfBounds \<and>
   unat (map_to_ega 1 2 3) < 16"
  using accesses_in_bounds [of 8 1 black_white_row "[1, 2, 3, 4, 5, 6, 7, 8]" "\<lambda>n. True" 1 2 3]
  by (simp add: black_white_row_def)

text \<open>
  With \<open>width = height = 65536\<close> and a decoded buffer of \<open>4 * 65536 * 65536\<close> bytes,
  the index vector that \<^verbatim>\<open>main\<close> creates has \<^verbatim>\<open>width * height\<close> = 0 entries, and the store
  for the first pixel is outside it. Given an index buffer of \<open>65536 * 65536\<close> entries
  instead, the packer allocates \<^verbatim>\<open>plane_size * 4\<close> = 0 bytes and writes outside them.
\<close>

theorem accesses_in_bounds_counterexample:
  "8 dvd unat (65536 :: u32) \<and>
   length (replicate 17179869184 (0 :: u8)) = 4 * (unat (65536 :: u32) * unat (65536 :: u32)) \<and>
   quantize_y_loop (replicate 17179869184 0) 65536 65536 0
     (replicate (unat (65536 * 65536 :: u32)) 0) = Inl OutOfBounds \<and>
   length (replicate 4294967296 (1 :: u8)) = unat (65536 :: u32) * unat (65536 :: u32) \<and>
   convert_to_planar (\<lambda>n. True) (replicate 4294967296 1) 65536 65536 = Inl OutOfBounds"
  by (simp add: quantize_y_loop.simps quantize_x_loop.simps convert_to_planar_def
      planar_y_loop.simps planar_x_loop.simps planar_plane_loop.simps Let_def)

end
